theory Spec2Isabelle
  imports Main "HOL-Library.Word"
begin

section \<open>velox: the workspace, focus and arrangement core of velox.c\<close>

text \<open>
  The theory embeds the command handlers of \<^verbatim>\<open>velox/velox.c\<close>: \<^verbatim>\<open>update_focus\<close>,
  \<^verbatim>\<open>set_workspace\<close>, \<^verbatim>\<open>move_focus_to_workspace\<close>, \<^verbatim>\<open>set_focus_type\<close>,
  \<^verbatim>\<open>next_workspace\<close>, \<^verbatim>\<open>previous_workspace\<close>, \<^verbatim>\<open>toggle_focus_type\<close>, \<^verbatim>\<open>set_layout\<close>,
  \<^verbatim>\<open>focus_next\<close>, \<^verbatim>\<open>focus_previous\<close>, \<^verbatim>\<open>move_next\<close>, \<^verbatim>\<open>move_previous\<close>,
  \<^verbatim>\<open>toggle_floating\<close>, \<^verbatim>\<open>arrange\<close> and \<^verbatim>\<open>restack\<close>.

  The global variables become one record that every handler takes and returns. The calls
  that leave the file (\<^verbatim>\<open>focus\<close>, \<^verbatim>\<open>show_window\<close>, \<^verbatim>\<open>hide_window\<close>, the layout's
  \<^verbatim>\<open>arrange\<close> function, \<^verbatim>\<open>run_hooks\<close>) are recorded, in order, in a trace. A failed
  \<^verbatim>\<open>assert\<close> and every use of a pointer that C leaves undefined is an error value.
  \<^verbatim>\<open>DEBUG_ENTER\<close> only prints and is left out.
\<close>

subsection \<open>Links, lists and entries\<close>

text \<open>
  A window and a layout entry are identified by a number (the address of the structure).
  The lists are intrusive: a link is either the sentinel \<^verbatim>\<open>head\<close> of one of the lists or
  the link embedded in a structure.
\<close>

type_synonym window = nat
type_synonym layout_entry = nat

datatype list_id = Tiled nat | Floated nat | Layouts nat

datatype link = Head list_id | Link nat

text \<open>
  \<^verbatim>\<open>link_entry(link, type)\<close> converts a link to the structure that contains it. Applied
  to a sentinel it yields an address that is no structure of that type.
\<close>

datatype entry = Window window | Container_of_head list_id

fun link_entry :: "link \<Rightarrow> entry" where
  "link_entry (Link w) = Window w"
| "link_entry (Head l) = Container_of_head l"

datatype error =
    Assertion_failed
  | Out_of_range
  | Not_in_list
  | Not_a_node
  | Buffer_overrun

text \<open>Sequencing of fallible steps: the first error ends the handler.\<close>

definition seq :: "error + 'a \<Rightarrow> ('a \<Rightarrow> error + 'b) \<Rightarrow> error + 'b" where
  "seq m f = (case m of Inl e \<Rightarrow> Inl e | Inr x \<Rightarrow> f x)"

text \<open>
  Modelled from the spec: \<^verbatim>\<open>list.h\<close> is not part of the sources at hand. Its operations
  are modelled on the sequence of structures a list holds, after the contract of the
  intrusive ordered list: \<open>isEmpty\<close>, \<open>isSingular\<close> (exactly one element), \<open>isTrivial\<close>
  (fewer than two elements), \<open>first\<close>/\<open>last\<close>, \<open>next\<close>/\<open>prev\<close> with wrap-around relative
  to the sentinel, move-after/move-before relative to another link, removal, and the
  exchange of two nodes' positions.
\<close>

definition list_is_empty :: "nat list \<Rightarrow> bool" where
  "list_is_empty xs = (xs = [])"

definition list_is_singular :: "nat list \<Rightarrow> bool" where
  "list_is_singular xs = (length xs = 1)"

definition list_is_trivial :: "nat list \<Rightarrow> bool" where
  "list_is_trivial xs = (length xs < 2)"

definition list_first_link :: "list_id \<Rightarrow> nat list \<Rightarrow> link" where
  "list_first_link l xs = (case xs of [] \<Rightarrow> Head l | x # _ \<Rightarrow> Link x)"

definition list_last_link :: "list_id \<Rightarrow> nat list \<Rightarrow> link" where
  "list_last_link l xs = (if xs = [] then Head l else Link (last xs))"

definition list_first :: "list_id \<Rightarrow> nat list \<Rightarrow> entry" where
  "list_first l xs = link_entry (list_first_link l xs)"

definition list_last :: "list_id \<Rightarrow> nat list \<Rightarrow> entry" where
  "list_last l xs = link_entry (list_last_link l xs)"

fun index_of :: "nat \<Rightarrow> nat list \<Rightarrow> nat" where
  "index_of w [] = 0"
| "index_of w (x # xs) = (if x = w then 0 else Suc (index_of w xs))"

text \<open>
  The element after and before \<open>w\<close> in \<open>xs\<close>, cyclically: the last element is followed
  by the first.
\<close>

definition successor :: "nat \<Rightarrow> nat list \<Rightarrow> nat" where
  "successor w xs = xs ! ((index_of w xs + 1) mod length xs)"

definition predecessor :: "nat \<Rightarrow> nat list \<Rightarrow> nat" where
  "predecessor w xs = xs ! ((index_of w xs + length xs - 1) mod length xs)"

text \<open>
  The next and the previous link of a link of the list \<open>l\<close> with elements \<open>xs\<close>,
  skipping the sentinel. The contract covers the links of the list; a link of another
  list, or of no list, is reported as \<open>Not_in_list\<close>.
\<close>

definition list_next_link :: "list_id \<Rightarrow> nat list \<Rightarrow> link \<Rightarrow> error + link" where
  "list_next_link l xs k =
     (case k of
        Head l' \<Rightarrow> if l' = l then Inr (list_first_link l xs) else Inl Not_in_list
      | Link w \<Rightarrow> if w \<in> set xs then Inr (Link (successor w xs)) else Inl Not_in_list)"

definition list_prev_link :: "list_id \<Rightarrow> nat list \<Rightarrow> link \<Rightarrow> error + link" where
  "list_prev_link l xs k =
     (case k of
        Head l' \<Rightarrow> if l' = l then Inr (list_last_link l xs) else Inl Not_in_list
      | Link w \<Rightarrow> if w \<in> set xs then Inr (Link (predecessor w xs)) else Inl Not_in_list)"

fun insert_after_node :: "nat \<Rightarrow> nat \<Rightarrow> nat list \<Rightarrow> nat list" where
  "insert_after_node a n [] = []"
| "insert_after_node a n (x # xs) =
     (if x = a then x # n # xs else x # insert_after_node a n xs)"

fun insert_before_node :: "nat \<Rightarrow> nat \<Rightarrow> nat list \<Rightarrow> nat list" where
  "insert_before_node a n [] = []"
| "insert_before_node a n (x # xs) =
     (if x = a then n # x # xs else x # insert_before_node a n xs)"

definition swap_nodes :: "nat \<Rightarrow> nat \<Rightarrow> nat \<Rightarrow> nat" where
  "swap_nodes a b x = (if x = a then b else if x = b then a else x)"

subsection \<open>Layouts, workspaces and the global state\<close>

type_synonym byte = "8 word"

text \<open>
  Of \<^verbatim>\<open>struct velox_layout\<close> the handlers read \<^verbatim>\<open>default_state\<close> and
  \<^verbatim>\<open>default_state_size\<close> and call \<^verbatim>\<open>arrange\<close>.
\<close>

record velox_layout =
  default_state :: "byte list"
  default_state_size :: nat

datatype velox_workspace_focus_type = TILE | FLOAT

text \<open>
  \<^verbatim>\<open>struct velox_workspace\<close>: \<open>tiled_windows\<close> and \<open>tiled_focus\<close> are \<^verbatim>\<open>tiled.windows\<close>
  and \<^verbatim>\<open>tiled.focus\<close>, \<open>floated_windows\<close> is \<^verbatim>\<open>floated.windows\<close>. The type of
  \<^verbatim>\<open>state\<close> is declared outside the file; it is a buffer of bytes whose size is the
  length of the list.
\<close>

record velox_workspace =
  focus_type :: velox_workspace_focus_type
  tiled_windows :: "window list"
  tiled_focus :: link
  floated_windows :: "window list"
  layouts :: "layout_entry list"
  layout :: link
  state :: "byte list"

datatype hook = VELOX_HOOK_STARTUP | VELOX_HOOK_WORKSPACE_CHANGED | VELOX_HOOK_CLOCK_TICK

text \<open>The calls to the collaborators, with their arguments.\<close>

datatype event =
    Focus "entry option"
  | Show_window entry
  | Hide_window entry
  | Layout_arrange link "window list" "byte list"
  | Run_hooks "nat option" hook

text \<open>
  \<open>workspaces\<close> is the vector \<^verbatim>\<open>workspaces\<close>; \<open>workspace\<close> is the index of the workspace
  the pointer \<^verbatim>\<open>workspace\<close> refers to; \<open>floating\<close> holds the windows whose \<^verbatim>\<open>floating\<close>
  flag is set; \<open>layout_of\<close> is the \<^verbatim>\<open>layout\<close> field of each layout entry.
\<close>

record velox =
  workspaces :: "velox_workspace list"
  workspace :: nat
  floating :: "window set"
  layout_of :: "layout_entry \<Rightarrow> velox_layout"
  trace :: "event list"

text \<open>
  Modelled from the spec: velox.c declares \<^verbatim>\<open>active_workspace\<close> and uses \<^verbatim>\<open>workspace\<close>,
  whose declaration is not part of the sources at hand. The registry has one active
  workspace, so both names denote the same variable.
\<close>

definition active_workspace :: "velox \<Rightarrow> nat" where
  "active_workspace s = workspace s"

definition workspace_at :: "nat \<Rightarrow> velox \<Rightarrow> velox_workspace" where
  "workspace_at i s = workspaces s ! i"

definition current :: "velox \<Rightarrow> velox_workspace" where
  "current s = workspace_at (workspace s) s"

definition update_at :: "nat \<Rightarrow> (velox_workspace \<Rightarrow> velox_workspace) \<Rightarrow> velox \<Rightarrow> velox" where
  "update_at i f s = s\<lparr>workspaces := (workspaces s)[i := f (workspaces s ! i)]\<rparr>"

definition emit :: "event list \<Rightarrow> velox \<Rightarrow> velox" where
  "emit es s = s\<lparr>trace := trace s @ es\<rparr>"

definition ws_windows :: "velox_workspace \<Rightarrow> window list" where
  "ws_windows ws = tiled_windows ws @ floated_windows ws"

definition all_windows :: "velox \<Rightarrow> window list" where
  "all_windows s = concat (map ws_windows (workspaces s))"

subsection \<open>Relinking across the lists of all workspaces\<close>

text \<open>
  Modelled from the spec: the relinking operations of \<^verbatim>\<open>list.h\<close> (\<^verbatim>\<open>list_del\<close>,
  \<^verbatim>\<open>list_append\<close>, \<^verbatim>\<open>link_move_after\<close>, \<^verbatim>\<open>link_move_before\<close>, \<^verbatim>\<open>link_swap\<close>) are
  not part of the sources at hand. A link carries no reference to its list: unlinking a
  window takes it out of whichever window list of the registry holds it, and two swapped
  nodes exchange their places wherever they are linked.
\<close>

definition map_lists :: "(window list \<Rightarrow> window list) \<Rightarrow> velox \<Rightarrow> velox" where
  "map_lists f s =
     s\<lparr>workspaces :=
          map (\<lambda>ws. ws\<lparr>tiled_windows := f (tiled_windows ws),
                       floated_windows := f (floated_windows ws)\<rparr>) (workspaces s)\<rparr>"

definition list_del :: "window \<Rightarrow> velox \<Rightarrow> velox" where
  "list_del w s = map_lists (removeAll w) s"

definition insert_after :: "link \<Rightarrow> window \<Rightarrow> velox \<Rightarrow> error + velox" where
  "insert_after anchor n s =
     (case anchor of
        Head (Tiled i) \<Rightarrow>
          if i < length (workspaces s)
          then Inr (update_at i (\<lambda>ws. ws\<lparr>tiled_windows := n # tiled_windows ws\<rparr>) s)
          else Inl Out_of_range
      | Head (Floated i) \<Rightarrow>
          if i < length (workspaces s)
          then Inr (update_at i (\<lambda>ws. ws\<lparr>floated_windows := n # floated_windows ws\<rparr>) s)
          else Inl Out_of_range
      | Head (Layouts i) \<Rightarrow> Inl Not_in_list
      | Link a \<Rightarrow>
          if a \<in> set (all_windows s) then Inr (map_lists (insert_after_node a n) s)
          else Inl Not_in_list)"

definition insert_before :: "link \<Rightarrow> window \<Rightarrow> velox \<Rightarrow> error + velox" where
  "insert_before anchor n s =
     (case anchor of
        Head (Tiled i) \<Rightarrow>
          if i < length (workspaces s)
          then Inr (update_at i (\<lambda>ws. ws\<lparr>tiled_windows := tiled_windows ws @ [n]\<rparr>) s)
          else Inl Out_of_range
      | Head (Floated i) \<Rightarrow>
          if i < length (workspaces s)
          then Inr (update_at i (\<lambda>ws. ws\<lparr>floated_windows := floated_windows ws @ [n]\<rparr>) s)
          else Inl Out_of_range
      | Head (Layouts i) \<Rightarrow> Inl Not_in_list
      | Link a \<Rightarrow>
          if a \<in> set (all_windows s) then Inr (map_lists (insert_before_node a n) s)
          else Inl Not_in_list)"

text \<open>
  Modelled from the spec: \<^verbatim>\<open>link_move_after(link, anchor)\<close> and
  \<^verbatim>\<open>link_move_before(link, anchor)\<close> unlink a node and insert it after (before) the
  anchor. After the sentinel is the front of the list, before the sentinel is its end.
  The node has to be linked; a sentinel is no node.
\<close>

definition link_move_after :: "link \<Rightarrow> link \<Rightarrow> velox \<Rightarrow> error + velox" where
  "link_move_after k anchor s =
     (case k of
        Head _ \<Rightarrow> Inl Not_a_node
      | Link n \<Rightarrow>
          if n \<notin> set (all_windows s) \<or> anchor = Link n then Inl Not_in_list
          else insert_after anchor n (list_del n s))"

definition link_move_before :: "link \<Rightarrow> link \<Rightarrow> velox \<Rightarrow> error + velox" where
  "link_move_before k anchor s =
     (case k of
        Head _ \<Rightarrow> Inl Not_a_node
      | Link n \<Rightarrow>
          if n \<notin> set (all_windows s) \<or> anchor = Link n then Inl Not_in_list
          else insert_before anchor n (list_del n s))"

text \<open>
  Modelled from the spec: \<^verbatim>\<open>list_append(list, window)\<close> links an unlinked window at the
  end of the list.
\<close>

definition list_append :: "list_id \<Rightarrow> window \<Rightarrow> velox \<Rightarrow> error + velox" where
  "list_append l n s = insert_before (Head l) n s"

text \<open>
  Modelled from the spec: \<^verbatim>\<open>link_swap(first, second)\<close> exchanges the positions of two
  linked nodes.
\<close>

definition link_swap :: "link \<Rightarrow> link \<Rightarrow> velox \<Rightarrow> error + velox" where
  "link_swap k1 k2 s =
     (case (k1, k2) of
        (Link a, Link b) \<Rightarrow>
          if a \<in> set (all_windows s) \<and> b \<in> set (all_windows s)
          then Inr (map_lists (map (swap_nodes a b)) s)
          else Inl Not_in_list
      | _ \<Rightarrow> Inl Not_a_node)"

subsection \<open>The handlers of velox.c\<close>

definition entry_link :: "entry \<Rightarrow> link" where
  "entry_link e = (case e of Window w \<Rightarrow> Link w | Container_of_head l \<Rightarrow> Head l)"

text \<open>\<^verbatim>\<open>window->floating = value\<close>; the container of a sentinel has no such field.\<close>

definition set_floating :: "entry \<Rightarrow> bool \<Rightarrow> velox \<Rightarrow> error + velox" where
  "set_floating e b s =
     (case e of
        Window w \<Rightarrow> Inr (s\<lparr>floating := (if b then insert w (floating s) else floating s - {w})\<rparr>)
      | Container_of_head _ \<Rightarrow> Inl Not_a_node)"

text \<open>
  \<^verbatim>\<open>memcpy(dst, src, n)\<close> overwrites the first \<open>n\<close> bytes of the destination; reading or
  writing past the end of a buffer is undefined in C and an error here.
\<close>

definition memcpy :: "byte list \<Rightarrow> byte list \<Rightarrow> nat \<Rightarrow> error + byte list" where
  "memcpy dst src n =
     (if n \<le> length src \<and> n \<le> length dst then Inr (take n src @ drop n dst)
      else Inl Buffer_overrun)"

text \<open>\<^verbatim>\<open>restack\<close> has an empty body.\<close>

definition restack :: "velox \<Rightarrow> velox" where
  "restack s = s"

text \<open>
  \<^verbatim>\<open>arrange\<close>: nothing for an empty tiled list; otherwise the assertion on the layouts
  and the call of the current layout's \<^verbatim>\<open>arrange\<close> function on the tiled list and the
  workspace's state. The work area it is given is computed by \<^verbatim>\<open>calculate_work_area\<close>
  from the screen area alone and is not part of the model.
\<close>

definition arrange :: "velox \<Rightarrow> error + velox" where
  "arrange s =
     (let ws = current s in
      if list_is_empty (tiled_windows ws) then Inr s
      else if list_is_empty (layouts ws) then Inl Assertion_failed
      else (case layout ws of
              Head _ \<Rightarrow> Inl Not_a_node
            | Link _ \<Rightarrow>
                Inr (emit [Layout_arrange (layout ws) (tiled_windows ws) (state ws)] s)))"

text \<open>
  \<^verbatim>\<open>update_focus\<close> (lines 80 to 98). Its argument is a pointer to a workspace of the
  registry, here the index of that workspace.
\<close>

definition update_focus :: "nat \<Rightarrow> velox \<Rightarrow> velox" where
  "update_focus i s =
     (let ws = workspace_at i s in
      if focus_type ws = TILE then
        (if list_is_empty (tiled_windows ws) then emit [Focus None] s
         else emit [Focus (Some (link_entry (tiled_focus ws)))] s)
      else
        (if list_is_empty (floated_windows ws) then emit [Focus None] s
         else emit [Focus (Some (list_first (Floated i) (floated_windows ws)))] s))"

definition show_windows :: "window list \<Rightarrow> velox \<Rightarrow> velox" where
  "show_windows ws s = emit (map (\<lambda>w. Show_window (Window w)) ws) s"

definition hide_windows :: "window list \<Rightarrow> velox \<Rightarrow> velox" where
  "hide_windows ws s = emit (map (\<lambda>w. Hide_window (Window w)) ws) s"

text \<open>
  \<^verbatim>\<open>set_workspace\<close> (lines 100 to 138). The argument of the two indexed handlers is the
  \<^verbatim>\<open>uint8\<close> member of the union. The comparison of \<^verbatim>\<open>workspace\<close> with
  \<^verbatim>\<open>workspace_at(index)\<close> is one of pointers into the vector, hence of indices. The loops
  over the lists are \<open>show_windows\<close> and \<open>hide_windows\<close>.
\<close>

definition set_workspace :: "8 word \<Rightarrow> velox \<Rightarrow> error + velox" where
  "set_workspace index s =
     (if \<not> unat index < length (workspaces s) then Inl Assertion_failed
      else if workspace s = unat index then Inr s
      else
        (let target = workspace_at (unat index) s;
             s1 = show_windows (tiled_windows target) s;
             s2 = show_windows (floated_windows target) s1;
             s3 = update_focus (unat index) s2;
             s4 = hide_windows (tiled_windows (current s3)) s3;
             s5 = hide_windows (floated_windows (current s4)) s4;
             s6 = s5\<lparr>workspace := unat index\<rparr>
         in seq (if focus_type (current s6) = TILE then arrange s6 else Inr s6)
              (\<lambda>s7. Inr (emit [Run_hooks (Some (workspace s7)) VELOX_HOOK_WORKSPACE_CHANGED] s7))))"

text \<open>
  \<^verbatim>\<open>move_focus_to_workspace\<close> (lines 140 to 224). The handler does not check the index:
  \<^verbatim>\<open>workspace_at(index)\<close> beyond the vector is \<open>Out_of_range\<close>. It is first evaluated
  after the emptiness test of the active workspace's list.
\<close>

definition move_focus_to_workspace :: "8 word \<Rightarrow> velox \<Rightarrow> error + velox" where
  "move_focus_to_workspace index s =
     (let src = workspace s; dst = unat index; ws = current s in
      case focus_type ws of
        TILE \<Rightarrow>
          if list_is_empty (tiled_windows ws) then Inr s
          else
            (let window = link_entry (tiled_focus ws) in
             seq (list_next_link (Tiled src) (tiled_windows ws) (tiled_focus ws)) (\<lambda>next_focus.
             if \<not> dst < length (workspaces s) then Inl Out_of_range
             else
             seq (link_move_after (tiled_focus ws) (Head (Tiled dst)) s) (\<lambda>s1.
             let s2 = (if list_is_singular (tiled_windows (workspace_at dst s1))
                       then update_at dst (\<lambda>w. w\<lparr>tiled_focus :=
                              list_first_link (Tiled dst) (tiled_windows w)\<rparr>) s1
                       else s1);
                 emptied = list_is_empty (tiled_windows (current s2));
                 next_focus' = (if emptied then Head (Tiled src) else next_focus);
                 s3 = (if emptied \<and> \<not> list_is_empty (floated_windows (current s2))
                       then update_at src (\<lambda>w. w\<lparr>focus_type := FLOAT\<rparr>) s2
                       else s2);
                 s4 = update_at src (\<lambda>w. w\<lparr>tiled_focus := next_focus'\<rparr>) s3;
                 s5 = emit [Hide_window window] (update_focus src s4)
             in seq (arrange s5) (\<lambda>s6.
                Inr (if list_is_empty (floated_windows (workspace_at dst s6))
                     then update_at dst (\<lambda>w. w\<lparr>focus_type := TILE\<rparr>) s6
                     else s6)))))
      | FLOAT \<Rightarrow>
          if list_is_empty (floated_windows ws) then Inr s
          else
            (let window = list_first (Floated src) (floated_windows ws) in
             case window of
               Container_of_head _ \<Rightarrow> Inl Not_a_node
             | Window n \<Rightarrow>
                 if \<not> dst < length (workspaces s) then Inl Out_of_range
                 else
                 seq (list_append (Floated dst) n (list_del n s)) (\<lambda>s1.
                 let s2 = (if list_is_empty (floated_windows (current s1))
                           then update_at src (\<lambda>w. w\<lparr>focus_type := TILE\<rparr>) s1
                           else s1);
                     s3 = emit [Hide_window window] (update_focus src s2)
                 in seq (arrange s3) (\<lambda>s4.
                    Inr (if list_is_empty (tiled_windows (workspace_at dst s4))
                         then update_at dst (\<lambda>w. w\<lparr>focus_type := FLOAT\<rparr>) s4
                         else s4)))))"

text \<open>\<^verbatim>\<open>set_focus_type\<close> (lines 226 to 242).\<close>

definition set_focus_type :: "velox_workspace_focus_type \<Rightarrow> velox \<Rightarrow> velox" where
  "set_focus_type ft s =
     (let ws = current s in
      if focus_type ws = ft then s
      else if ft = TILE \<and> \<not> list_is_empty (tiled_windows ws) then
        emit [Focus (Some (link_entry (tiled_focus ws)))]
          (update_at (workspace s) (\<lambda>w. w\<lparr>focus_type := ft\<rparr>) s)
      else if ft = FLOAT \<and> \<not> list_is_empty (floated_windows ws) then
        emit [Focus (Some (list_first (Floated (workspace s)) (floated_windows ws)))]
          (update_at (workspace s) (\<lambda>w. w\<lparr>focus_type := ft\<rparr>) s)
      else s)"

text \<open>
  Modelled from the spec: the macro \<^verbatim>\<open>vector_for_each_with_index\<close> is not part of the
  sources at hand. It is the linear scan over the positions of the registry that the
  loop body leaves at the active workspace; without a match it ends at the size.
\<close>

function vector_scan :: "nat \<Rightarrow> nat \<Rightarrow> nat \<Rightarrow> nat" where
  "vector_scan n a i = (if i < n then (if i = a then i else vector_scan n a (Suc i)) else i)"
  by pat_completeness auto
termination
  by (relation "measure (\<lambda>(n, a, i). n - i)") auto

declare vector_scan.simps [simp del]


definition previous_workspace :: "velox \<Rightarrow> error + velox" where
  "previous_workspace s =
     (let index = (word_of_nat (vector_scan (length (workspaces s)) (active_workspace s) 0) :: 8 word);
          index2 = (if index = 0 then word_of_nat (length (workspaces s) - 1) else index - 1)
      in set_workspace index2 s)"

definition toggle_focus_type :: "velox \<Rightarrow> velox" where
  "toggle_focus_type s =
     (if focus_type (current s) = TILE then set_focus_type FLOAT s else set_focus_type TILE s)"

text \<open>
  \<^verbatim>\<open>set_layout\<close> (lines 290 to 300). The entry of a sentinel has no \<^verbatim>\<open>layout\<close> field to
  read.
\<close>

definition set_layout :: "link \<Rightarrow> velox \<Rightarrow> error + velox" where
  "set_layout k s =
     (let s1 = update_at (workspace s) (\<lambda>w. w\<lparr>layout := k\<rparr>) s in
      case k of
        Head _ \<Rightarrow> Inl Not_a_node
      | Link e \<Rightarrow>
          (let l = layout_of s1 e in
           seq (memcpy (state (current s1)) (default_state l) (default_state_size l)) (\<lambda>buf.
           arrange (update_at (workspace s1) (\<lambda>w. w\<lparr>state := buf\<rparr>) s1))))"

definition next_layout :: "velox \<Rightarrow> error + velox" where
  "next_layout s =
     seq (list_next_link (Layouts (workspace s)) (layouts (current s)) (layout (current s)))
       (\<lambda>k. set_layout k s)"

definition previous_layout :: "velox \<Rightarrow> error + velox" where
  "previous_layout s =
     seq (list_prev_link (Layouts (workspace s)) (layouts (current s)) (layout (current s)))
       (\<lambda>k. set_layout k s)"

text \<open>
  \<^verbatim>\<open>focus_next\<close> and \<^verbatim>\<open>focus_previous\<close> (lines 316 to 382), \<^verbatim>\<open>move_next\<close> and
  \<^verbatim>\<open>move_previous\<close> (lines 384 to 424), \<^verbatim>\<open>toggle_floating\<close> (lines 426 to 467).
\<close>

definition focus_next :: "velox \<Rightarrow> error + velox" where
  "focus_next s =
     (let ws = current s in
      case focus_type ws of
        TILE \<Rightarrow>
          if list_is_trivial (tiled_windows ws) then Inr s
          else
            seq (list_next_link (Tiled (workspace s)) (tiled_windows ws) (tiled_focus ws)) (\<lambda>k.
            Inr (emit [Focus (Some (link_entry k))]
                   (update_at (workspace s) (\<lambda>w. w\<lparr>tiled_focus := k\<rparr>) s)))
      | FLOAT \<Rightarrow>
          if list_is_trivial (floated_windows ws) then Inr s
          else
            (let window = list_last (Floated (workspace s)) (floated_windows ws) in
             seq (link_move_after (entry_link window) (Head (Floated (workspace s))) s) (\<lambda>s1.
             Inr (restack (emit [Focus (Some window)] s1)))))"

definition focus_previous :: "velox \<Rightarrow> error + velox" where
  "focus_previous s =
     (let ws = current s in
      case focus_type ws of
        TILE \<Rightarrow>
          if list_is_trivial (tiled_windows ws) then Inr s
          else
            seq (list_prev_link (Tiled (workspace s)) (tiled_windows ws) (tiled_focus ws)) (\<lambda>k.
            Inr (emit [Focus (Some (link_entry k))]
                   (update_at (workspace s) (\<lambda>w. w\<lparr>tiled_focus := k\<rparr>) s)))
      | FLOAT \<Rightarrow>
          if list_is_trivial (floated_windows ws) then Inr s
          else
            (let window = list_first (Floated (workspace s)) (floated_windows ws) in
             seq (link_move_before (entry_link window) (Head (Floated (workspace s))) s) (\<lambda>s1.
             Inr (restack (emit [Focus (Some window)] s1)))))"

definition move_next :: "velox \<Rightarrow> error + velox" where
  "move_next s =
     (let ws = current s in
      case focus_type ws of
        TILE \<Rightarrow>
          if list_is_trivial (tiled_windows ws) then Inr s
          else
            (let first = link_entry (tiled_focus ws) in
             seq (list_next_link (Tiled (workspace s)) (tiled_windows ws) (tiled_focus ws)) (\<lambda>k.
             let second = link_entry k in
             seq (link_swap (entry_link first) (entry_link second) s) arrange))
      | FLOAT \<Rightarrow> Inr s)"

definition move_previous :: "velox \<Rightarrow> error + velox" where
  "move_previous s =
     (let ws = current s in
      case focus_type ws of
        TILE \<Rightarrow>
          if list_is_trivial (tiled_windows ws) then Inr s
          else
            (let first = link_entry (tiled_focus ws) in
             seq (list_prev_link (Tiled (workspace s)) (tiled_windows ws) (tiled_focus ws)) (\<lambda>k.
             let second = link_entry k in
             seq (link_swap (entry_link first) (entry_link second) s) arrange))
      | FLOAT \<Rightarrow> Inr s)"

definition toggle_floating :: "velox \<Rightarrow> error + velox" where
  "toggle_floating s =
     (let cur = workspace s; ws = current s in
      if focus_type ws = TILE then
        (if \<not> list_is_empty (tiled_windows ws) then
           (let window = link_entry (tiled_focus ws) in
            seq (list_next_link (Tiled cur) (tiled_windows ws) (tiled_focus ws)) (\<lambda>k.
            let s1 = update_at cur (\<lambda>w. w\<lparr>tiled_focus := k\<rparr>) s in
            seq (link_move_after (entry_link window) (Head (Floated cur)) s1) (\<lambda>s2.
            seq (set_floating window True s2) (\<lambda>s3.
            let s4 = update_at cur (\<lambda>w. w\<lparr>focus_type := FLOAT\<rparr>) s3
            in arrange (restack (update_focus cur s4))))))
         else Inr s)
      else
        (if \<not> list_is_empty (floated_windows ws) then
           (let window = list_first (Floated cur) (floated_windows ws) in
            seq (link_move_after (entry_link window) (Head (Tiled cur)) s) (\<lambda>s1.
            let s2 = update_at cur (\<lambda>w. w\<lparr>tiled_focus := entry_link window\<rparr>) s1 in
            seq (set_floating window False s2) (\<lambda>s3.
            let s4 = update_at cur (\<lambda>w. w\<lparr>focus_type := TILE\<rparr>) s3
            in arrange (restack (update_focus cur s4)))))
         else Inr s))"

subsection \<open>Commands and their sequencing\<close>

text \<open>The commands of the focus and arrangement controller that a binding can trigger.\<close>

datatype command =
    Set_workspace "8 word"
  | Move_focus_to_workspace "8 word"
  | Set_focus_type velox_workspace_focus_type
  | Focus_next
  | Focus_previous
  | Move_next
  | Move_previous
  | Toggle_floating

fun run :: "command \<Rightarrow> velox \<Rightarrow> error + velox" where
  "run (Set_workspace i) s = set_workspace i s"
| "run (Move_focus_to_workspace i) s = move_focus_to_workspace i s"
| "run (Set_focus_type ft) s = Inr (set_focus_type ft s)"
| "run Focus_next s = focus_next s"
| "run Focus_previous s = focus_previous s"
| "run Move_next s = move_next s"
| "run Move_previous s = move_previous s"
| "run Toggle_floating s = toggle_floating s"

fun run_all :: "command list \<Rightarrow> velox \<Rightarrow> error + velox" where
  "run_all [] s = Inr s"
| "run_all (c # cs) s = seq (run c s) (run_all cs)"

text \<open>A command that takes an index is given one of the registry.\<close>

fun index_valid :: "nat \<Rightarrow> command \<Rightarrow> bool" where
  "index_valid n (Set_workspace i) = (unat i < n)"
| "index_valid n (Move_focus_to_workspace i) = (unat i < n)"
| "index_valid n _ = True"


subsection \<open>Well-formed states\<close>

text \<open>
  The tiled focus of a workspace with tiled windows is the link of one of them.
\<close>

definition cursor_ok :: "velox_workspace \<Rightarrow> bool" where
  "cursor_ok ws =
     (tiled_windows ws \<noteq> [] \<longrightarrow>
        (case tiled_focus ws of Link w \<Rightarrow> w \<in> set (tiled_windows ws) | Head _ \<Rightarrow> False))"

text \<open>
  A workspace has layouts, and its layout cursor is the link of a layout entry
  (\<^verbatim>\<open>arrange\<close> asserts the first and dereferences the second).
\<close>

definition layout_ok :: "velox_workspace \<Rightarrow> bool" where
  "layout_ok ws =
     (layouts ws \<noteq> [] \<and> (case layout ws of Link e \<Rightarrow> True | Head _ \<Rightarrow> False))"

text \<open>
  A state is well formed when the active workspace is one of the registry, every window
  is linked into at most one list (its link is a single node), and every workspace has
  a sound tiled focus and layout cursor.
\<close>

definition wf :: "velox \<Rightarrow> bool" where
  "wf s =
     (workspace s < length (workspaces s) \<and>
      distinct (all_windows s) \<and>
      list_all (\<lambda>ws. cursor_ok ws \<and> layout_ok ws) (workspaces s))"

text \<open>The focus invariant of the workspaces, as the specification words it.\<close>

definition focus_inv :: "velox \<Rightarrow> bool" where
  "focus_inv s =
     list_all (\<lambda>ws. focus_type ws = TILE \<and> tiled_windows ws \<noteq> [] \<longrightarrow>
                  (\<exists>w \<in> set (tiled_windows ws). tiled_focus ws = Link w)) (workspaces s)"

subsection \<open>Visible windows\<close>




text \<open>\<open>b\<close> stands directly behind \<open>a\<close> in a list.\<close>

fun immediately_after :: "nat \<Rightarrow> nat \<Rightarrow> nat list \<Rightarrow> bool" where
  "immediately_after a b (x # y # ys) = ((x = a \<and> y = b) \<or> immediately_after a b (y # ys))"
| "immediately_after a b _ = False"

text \<open>The last window handed to \<^verbatim>\<open>focus\<close>, if any call was made.\<close>

fun last_focus :: "event list \<Rightarrow> entry option option" where
  "last_focus [] = None"
| "last_focus (e # es) =
     (case last_focus es of
        Some f \<Rightarrow> Some f
      | None \<Rightarrow> (case e of Focus f \<Rightarrow> Some f | _ \<Rightarrow> None))"

subsection \<open>Example states\<close>

text \<open>
  Small registries on which the statements below are evaluated: every workspace has one
  layout entry whose layout has a default state of two bytes, and a state buffer of four.
\<close>

definition example_layouts :: "layout_entry \<Rightarrow> velox_layout" where
  "example_layouts e = \<lparr>default_state = [0, 0], default_state_size = 2\<rparr>"

definition mk_workspace ::
  "velox_workspace_focus_type \<Rightarrow> window list \<Rightarrow> link \<Rightarrow> window list \<Rightarrow> velox_workspace" where
  "mk_workspace ft ts k fs =
     \<lparr>focus_type = ft, tiled_windows = ts, tiled_focus = k, floated_windows = fs,
      layouts = [100], layout = Link 100, state = [1, 2, 3, 4]\<rparr>"

definition mk_velox :: "velox_workspace list \<Rightarrow> nat \<Rightarrow> velox" where
  "mk_velox wss a =
     \<lparr>workspaces = wss, workspace = a, floating = set (concat (map floated_windows wss)),
      layout_of = example_layouts, trace = []\<rparr>"

text \<open>Workspace 0 with the tiled windows 1, 2, 3 and the focus on 2; workspace 1 empty.\<close>

definition three_tiled :: velox where
  "three_tiled =
     mk_velox [mk_workspace TILE [1, 2, 3] (Link 2) [], mk_workspace TILE [] (Head (Tiled 1)) []] 0"

text \<open>A workspace in floating mode with no window at all.\<close>

definition float_without_windows :: velox where
  "float_without_windows = mk_velox [mk_workspace FLOAT [] (Head (Tiled 0)) []] 0"

text \<open>The same registry once its windows have been shown.\<close>

definition three_tiled_shown :: velox where
  "three_tiled_shown =
     three_tiled\<lparr>trace := [Show_window (Window 1), Show_window (Window 2), Show_window (Window 3)]\<rparr>"

text \<open>Workspace 0 with the single tiled window 1 and no floated window; workspace 1 empty.\<close>

definition one_tiled :: velox where
  "one_tiled =
     mk_velox [mk_workspace TILE [1] (Link 1) [], mk_workspace TILE [] (Head (Tiled 1)) []] 0"

text \<open>A workspace in floating mode with the floated windows 1 and 2, 1 in front.\<close>

definition two_floating :: velox where
  "two_floating = mk_velox [mk_workspace FLOAT [] (Head (Tiled 0)) [1, 2]] 0"


section \<open>Basic facts\<close>

lemma seq_Inr [simp]: "seq (Inr x) f = f x"
  by (simp add: seq_def)

lemma seq_Inl [simp]: "seq (Inl e) f = Inl e"
  by (simp add: seq_def)

lemma index_of_less: "w \<in> set xs \<Longrightarrow> index_of w xs < length xs"
  by (induction xs) auto

lemma nth_index_of: "w \<in> set xs \<Longrightarrow> xs ! index_of w xs = w"
  by (induction xs) auto

lemma index_of_nth: "distinct xs \<Longrightarrow> i < length xs \<Longrightarrow> index_of (xs ! i) xs = i"
proof (induction xs arbitrary: i)
  case Nil
  then show ?case by simp
next
  case (Cons x xs)
  show ?case
  proof (cases i)
    case 0
    then show ?thesis by simp
  next
    case (Suc j)
    with Cons.prems have "xs ! j \<in> set xs" "x \<notin> set xs" by auto
    then have "x \<noteq> xs ! j" by auto
    with Cons Suc show ?thesis by simp
  qed
qed

lemma successor_in_set: "xs \<noteq> [] \<Longrightarrow> successor w xs \<in> set xs"
  by (simp add: successor_def nth_mem)

lemma predecessor_in_set: "xs \<noteq> [] \<Longrightarrow> predecessor w xs \<in> set xs"
  by (simp add: predecessor_def nth_mem)

lemma successor_neq:
  assumes "distinct xs" "w \<in> set xs" "2 \<le> length xs"
  shows "successor w xs \<noteq> w"
proof
  let ?i = "index_of w xs" and ?n = "length xs"
  assume "successor w xs = w"
  then have eq: "xs ! ((?i + 1) mod ?n) = w" by (simp add: successor_def)
  have i: "?i < ?n" using assms(2) by (rule index_of_less)
  have "0 < ?n" using assms(3) by (cases xs) simp_all
  then have "(?i + 1) mod ?n < ?n" by (rule mod_less_divisor)
  then have "index_of (xs ! ((?i + 1) mod ?n)) xs = (?i + 1) mod ?n"
    using assms(1) by (simp add: index_of_nth)
  with eq have "(?i + 1) mod ?n = ?i" by simp
  moreover have "(?i + 1) mod ?n \<noteq> ?i"
  proof (cases "?i + 1 = ?n")
    case True
    then show ?thesis using assms(3) by simp
  next
    case False
    with i have "?i + 1 < ?n" by simp
    then show ?thesis by simp
  qed
  ultimately show False by simp
qed

lemma successor_removeAll:
  assumes "distinct xs" "w \<in> set xs" "removeAll w xs \<noteq> []"
  shows "successor w xs \<in> set (removeAll w xs)"
proof -
  have "length xs \<noteq> 1"
  proof
    assume "length xs = 1"
    then obtain x where "xs = [x]" by (cases xs) auto
    with assms(2,3) show False by simp
  qed
  moreover have "xs \<noteq> []" using assms(2) by auto
  then have "length xs \<noteq> 0" by simp
  ultimately have "2 \<le> length xs" by linarith
  then have "successor w xs \<noteq> w"
    using successor_neq assms(1,2) by blast
  moreover have "successor w xs \<in> set xs"
    using \<open>xs \<noteq> []\<close> by (rule successor_in_set)
  ultimately show ?thesis by simp
qed

lemma list_next_link_member:
  "w \<in> set xs \<Longrightarrow> list_next_link l xs (Link w) = Inr (Link (successor w xs))"
  by (simp add: list_next_link_def)

lemma list_prev_link_member:
  "w \<in> set xs \<Longrightarrow> list_prev_link l xs (Link w) = Inr (Link (predecessor w xs))"
  by (simp add: list_prev_link_def)

subsection \<open>State updates\<close>

lemma update_at_simps [simp]:
  "workspaces (update_at i f s) = (workspaces s)[i := f (workspaces s ! i)]"
  "workspace (update_at i f s) = workspace s"
  "floating (update_at i f s) = floating s"
  "layout_of (update_at i f s) = layout_of s"
  "trace (update_at i f s) = trace s"
  by (simp_all add: update_at_def)

lemma emit_simps [simp]:
  "workspaces (emit es s) = workspaces s"
  "workspace (emit es s) = workspace s"
  "floating (emit es s) = floating s"
  "layout_of (emit es s) = layout_of s"
  "trace (emit es s) = trace s @ es"
  by (simp_all add: emit_def)

lemma list_del_simps [simp]:
  "workspace (list_del w s) = workspace s"
  "floating (list_del w s) = floating s"
  "layout_of (list_del w s) = layout_of s"
  "trace (list_del w s) = trace s"
  "length (workspaces (list_del w s)) = length (workspaces s)"
  by (simp_all add: list_del_def map_lists_def)

lemma all_windows_list_del: "all_windows (list_del w s) = removeAll w (all_windows s)"
proof -
  have "concat (map ws_windows (map (\<lambda>ws. ws\<lparr>tiled_windows := removeAll w (tiled_windows ws),
            floated_windows := removeAll w (floated_windows ws)\<rparr>) wss))
        = removeAll w (concat (map ws_windows wss))" for wss
    by (induction wss) (simp_all add: ws_windows_def)
  then show ?thesis
    by (simp add: all_windows_def list_del_def map_lists_def)
qed

lemma concat_split_at:
  "i < length xss \<Longrightarrow> concat xss = concat (take i xss) @ xss ! i @ concat (drop (Suc i) xss)"
  by (metis append_Cons append_Nil concat.simps(2) concat_append id_take_nth_drop)

lemma concat_update_at:
  "i < length xss \<Longrightarrow>
     concat (xss[i := ys]) = concat (take i xss) @ ys @ concat (drop (Suc i) xss)"
  by (simp add: upd_conv_take_nth_drop)

lemma distinct_concat_update:
  assumes "i < length xss" "distinct (concat xss)" "distinct ys"
    and "set ys \<subseteq> set (xss ! i) \<union> N" "N \<inter> set (concat xss) = {}"
  shows "distinct (concat (xss[i := ys]))"
proof -
  define A where "A = concat (take i xss)"
  define C where "C = concat (drop (Suc i) xss)"
  have split: "concat xss = A @ xss ! i @ C"
    unfolding A_def C_def by (rule concat_split_at [OF assms(1)])
  have d: "distinct (A @ xss ! i @ C)"
    using assms(2) split by simp
  have n: "N \<inter> (set A \<union> set (xss ! i) \<union> set C) = {}"
    using assms(5) unfolding split by (simp add: Un_assoc)
  have "distinct (A @ ys @ C)"
    using d n assms(3,4) by auto
  then show ?thesis
    unfolding concat_update_at [OF assms(1)] A_def C_def .
qed

lemma windows_disjoint:
  assumes "distinct (concat xss)" "i < length xss" "j < length xss" "i \<noteq> j" "x \<in> set (xss ! i)"
  shows "x \<notin> set (xss ! j)"
proof -
  have aux: "x \<notin> set (xss ! j)"
    if "i < j" "j < length xss" "distinct (concat xss)" "x \<in> set (xss ! i)" for i j and xss :: "'a list list" and x
  proof -
    have "drop (Suc i) xss ! (j - Suc i) = xss ! j" "j - Suc i < length (drop (Suc i) xss)"
      using that(1,2) by simp_all
    then have "xss ! j \<in> set (drop (Suc i) xss)"
      by (metis nth_mem)
    then have "set (xss ! j) \<subseteq> set (concat (drop (Suc i) xss))" by auto
    moreover have "distinct (concat (take i xss) @ xss ! i @ concat (drop (Suc i) xss))"
      using that concat_split_at [of i xss] by simp
    ultimately show ?thesis using that(4) by auto
  qed
  show ?thesis
  proof (cases "i < j")
    case True
    then show ?thesis using aux assms by blast
  next
    case False
    with assms(4) have "j < i" by simp
    then show ?thesis using aux [of j i xss] assms by blast
  qed
qed

lemma distinct_nth_concat: "distinct (concat xss) \<Longrightarrow> i < length xss \<Longrightarrow> distinct (xss ! i)"
  using concat_split_at [of i xss] by (metis distinct_append)

section \<open>Facts about the state and the list primitives\<close>

lemma current_simps [simp]:
  "current (emit es s) = current s"
  by (simp add: current_def workspace_at_def)

lemma workspace_at_emit [simp]: "workspace_at i (emit es s) = workspace_at i s"
  by (simp add: workspace_at_def)

lemma arrange_cases:
  "arrange s =
     (if tiled_windows (current s) = [] then Inr s
      else if layouts (current s) = [] then Inl Assertion_failed
      else (case layout (current s) of
              Head l \<Rightarrow> Inl Not_a_node
            | Link e \<Rightarrow> Inr (emit [Layout_arrange (Link e) (tiled_windows (current s))
                                      (state (current s))] s)))"
  by (simp add: arrange_def list_is_empty_def Let_def split: link.splits)

lemma arrange_layout_ok:
  assumes "layout_ok (current s)"
  shows "arrange s =
           Inr (emit (if tiled_windows (current s) = [] then []
                      else [Layout_arrange (layout (current s)) (tiled_windows (current s))
                              (state (current s))]) s)"
  using assms by (auto simp: arrange_cases layout_ok_def emit_def split: link.splits)

lemma memcpy_ok:
  "n \<le> length src \<Longrightarrow> n \<le> length dst \<Longrightarrow> memcpy dst src n = Inr (take n src @ drop n dst)"
  by (simp add: memcpy_def)

lemma length_update_at [simp]: "length (workspaces (update_at i f s)) = length (workspaces s)"
  by simp

lemma workspace_at_update_at:
  "i < length (workspaces s) \<Longrightarrow>
     workspace_at i (update_at j f s) = (if i = j then f (workspace_at i s) else workspace_at i s)"
  by (simp add: workspace_at_def)

lemma wf_active: "wf s \<Longrightarrow> workspace s < length (workspaces s)"
  by (simp add: wf_def)

lemma wf_distinct: "wf s \<Longrightarrow> distinct (all_windows s)"
  by (simp add: wf_def)

lemma wf_nth:
  "wf s \<Longrightarrow> i < length (workspaces s) \<Longrightarrow> cursor_ok (workspaces s ! i) \<and> layout_ok (workspaces s ! i)"
  by (simp add: wf_def list_all_length)

lemma wf_current: "wf s \<Longrightarrow> cursor_ok (current s) \<and> layout_ok (current s)"
  by (simp add: current_def workspace_at_def wf_nth wf_active)

lemma cursor_okD:
  "cursor_ok ws \<Longrightarrow> tiled_windows ws \<noteq> [] \<Longrightarrow>
     \<exists>w. tiled_focus ws = Link w \<and> w \<in> set (tiled_windows ws)"
  by (auto simp: cursor_ok_def split: link.splits)

lemma ws_distinct:
  assumes "distinct (all_windows s)" "i < length (workspaces s)"
  shows "distinct (tiled_windows (workspaces s ! i) @ floated_windows (workspaces s ! i))"
proof -
  have "distinct (map ws_windows (workspaces s) ! i)"
    using assms by (intro distinct_nth_concat) (simp_all add: all_windows_def)
  then show ?thesis using assms(2) by (simp add: ws_windows_def)
qed

lemma ws_disjoint:
  assumes "distinct (all_windows s)" "i < length (workspaces s)" "j < length (workspaces s)"
    "i \<noteq> j" "x \<in> set (ws_windows (workspaces s ! i))"
  shows "x \<notin> set (ws_windows (workspaces s ! j))"
proof -
  have "x \<notin> set (map ws_windows (workspaces s) ! j)"
    using assms by (intro windows_disjoint [where i = i]) (simp_all add: all_windows_def)
  then show ?thesis using assms(3) by simp
qed

lemma list_del_tiled:
  assumes d: "distinct (all_windows s)" and a: "a < length (workspaces s)"
    and w: "w \<in> set (tiled_windows (workspaces s ! a))"
  shows "list_del w s =
           update_at a (\<lambda>ws. ws\<lparr>tiled_windows := removeAll w (tiled_windows ws)\<rparr>) s"
proof -
  let ?g = "\<lambda>ws. ws\<lparr>tiled_windows := removeAll w (tiled_windows ws),
                     floated_windows := removeAll w (floated_windows ws)\<rparr>"
  have "map ?g (workspaces s) =
          (workspaces s)[a := (workspaces s ! a)\<lparr>tiled_windows := removeAll w (tiled_windows (workspaces s ! a))\<rparr>]"
  proof (rule nth_equalityI)
    show "length (map ?g (workspaces s)) = length ((workspaces s)[a := (workspaces s ! a)\<lparr>tiled_windows := removeAll w (tiled_windows (workspaces s ! a))\<rparr>])"
      by simp
  next
    fix i assume "i < length (map ?g (workspaces s))"
    then have i: "i < length (workspaces s)" by simp
    show "map ?g (workspaces s) ! i = (workspaces s)[a := (workspaces s ! a)\<lparr>tiled_windows := removeAll w (tiled_windows (workspaces s ! a))\<rparr>] ! i"
    proof (cases "i = a")
      case True
      have "w \<notin> set (floated_windows (workspaces s ! a))"
        using ws_distinct [OF d a] w by auto
      then show ?thesis using True a by simp
    next
      case False
      have "w \<in> set (ws_windows (workspaces s ! a))"
        using w by (simp add: ws_windows_def)
      then have "w \<notin> set (ws_windows (workspaces s ! i))"
        using ws_disjoint [OF d a i] False by blast
      then show ?thesis using False i by (simp add: ws_windows_def)
    qed
  qed
  then show ?thesis
    by (simp add: list_del_def map_lists_def update_at_def)
qed

lemma list_del_floated:
  assumes d: "distinct (all_windows s)" and a: "a < length (workspaces s)"
    and w: "w \<in> set (floated_windows (workspaces s ! a))"
  shows "list_del w s =
           update_at a (\<lambda>ws. ws\<lparr>floated_windows := removeAll w (floated_windows ws)\<rparr>) s"
proof -
  let ?g = "\<lambda>ws. ws\<lparr>tiled_windows := removeAll w (tiled_windows ws),
                     floated_windows := removeAll w (floated_windows ws)\<rparr>"
  have "map ?g (workspaces s) =
          (workspaces s)[a := (workspaces s ! a)\<lparr>floated_windows := removeAll w (floated_windows (workspaces s ! a))\<rparr>]"
  proof (rule nth_equalityI)
    show "length (map ?g (workspaces s)) = length ((workspaces s)[a := (workspaces s ! a)\<lparr>floated_windows := removeAll w (floated_windows (workspaces s ! a))\<rparr>])"
      by simp
  next
    fix i assume "i < length (map ?g (workspaces s))"
    then have i: "i < length (workspaces s)" by simp
    show "map ?g (workspaces s) ! i = (workspaces s)[a := (workspaces s ! a)\<lparr>floated_windows := removeAll w (floated_windows (workspaces s ! a))\<rparr>] ! i"
    proof (cases "i = a")
      case True
      have "w \<notin> set (tiled_windows (workspaces s ! a))"
        using ws_distinct [OF d a] w by auto
      then show ?thesis using True a by simp
    next
      case False
      have "w \<in> set (ws_windows (workspaces s ! a))"
        using w by (simp add: ws_windows_def)
      then have "w \<notin> set (ws_windows (workspaces s ! i))"
        using ws_disjoint [OF d a i] False by blast
      then show ?thesis using False i by (simp add: ws_windows_def)
    qed
  qed
  then show ?thesis
    by (simp add: list_del_def map_lists_def update_at_def)
qed

lemma in_all_windows:
  "i < length (workspaces s) \<Longrightarrow> w \<in> set (ws_windows (workspaces s ! i)) \<Longrightarrow> w \<in> set (all_windows s)"
  by (auto simp: all_windows_def)

lemma link_move_after_tiled_head:
  assumes d: "distinct (all_windows s)" and a: "a < length (workspaces s)"
    and t: "t < length (workspaces s)"
    and w: "w \<in> set (tiled_windows (workspaces s ! a))"
  shows "link_move_after (Link w) (Head (Tiled t)) s =
           Inr (update_at t (\<lambda>ws. ws\<lparr>tiled_windows := w # tiled_windows ws\<rparr>)
                 (update_at a (\<lambda>ws. ws\<lparr>tiled_windows := removeAll w (tiled_windows ws)\<rparr>) s))"
proof -
  have "w \<in> set (all_windows s)"
    using in_all_windows [OF a] w by (simp add: ws_windows_def)
  then show ?thesis
    using t by (simp add: link_move_after_def insert_after_def list_del_tiled [OF d a w])
qed

lemma update_focus_trace:
  "update_focus i s =
     emit [Focus (case focus_type (workspace_at i s) of
                    TILE \<Rightarrow> (if tiled_windows (workspace_at i s) = [] then None
                             else Some (link_entry (tiled_focus (workspace_at i s))))
                  | FLOAT \<Rightarrow> (if floated_windows (workspace_at i s) = [] then None
                              else Some (Window (hd (floated_windows (workspace_at i s))))))] s"
  by (cases "focus_type (workspace_at i s)"; cases "floated_windows (workspace_at i s)")
     (simp_all add: update_focus_def list_is_empty_def list_first_def list_first_link_def)

lemma focus_type_update_same: "focus_type ws = ft \<Longrightarrow> ws\<lparr>focus_type := ft\<rparr> = ws"
  by simp

section \<open>Moving the focused window to a workspace\<close>

lemma tiled_focus_update_same: "tiled_focus ws = k \<Longrightarrow> ws\<lparr>tiled_focus := k\<rparr> = ws"
  by simp

lemma all_windows_cong:
  "map ws_windows (workspaces s') = map ws_windows (workspaces s) \<Longrightarrow> all_windows s' = all_windows s"
  by (simp add: all_windows_def)

lemma distinct_insert_window:
  assumes d: "distinct (all_windows s)" and n: "n \<notin> set (all_windows s)"
    and t: "t < length (workspaces s)"
    and sub: "set (ws_windows (f (workspaces s ! t))) \<subseteq> insert n (set (ws_windows (workspaces s ! t)))"
    and df: "distinct (ws_windows (f (workspaces s ! t)))"
  shows "distinct (all_windows (update_at t f s))"
proof -
  have "distinct (concat ((map ws_windows (workspaces s))[t := ws_windows (f (workspaces s ! t))]))"
  proof (rule distinct_concat_update [where N = "{n}"])
    show "t < length (map ws_windows (workspaces s))" using t by simp
    show "distinct (concat (map ws_windows (workspaces s)))" using d by (simp add: all_windows_def)
    show "distinct (ws_windows (f (workspaces s ! t)))" by (rule df)
    show "set (ws_windows (f (workspaces s ! t))) \<subseteq> set (map ws_windows (workspaces s) ! t) \<union> {n}"
      using sub t by auto
    show "{n} \<inter> set (concat (map ws_windows (workspaces s))) = {}"
      using n by (simp add: all_windows_def)
  qed
  then show ?thesis
    by (simp add: all_windows_def map_update)
qed

lemma list_all_update: "list_all P xs \<Longrightarrow> P y \<Longrightarrow> list_all P (xs[i := y])"
  using set_update_subset_insert [of xs i y] by (auto simp: list_all_iff)

lemma distinct_all_windows_list_del:
  "distinct (all_windows s) \<Longrightarrow> distinct (all_windows (list_del w s)) \<and> w \<notin> set (all_windows (list_del w s))"
  by (simp add: all_windows_list_del distinct_removeAll)

lemma wf_emit [simp]: "wf (emit es s) = wf s"
  by (simp add: wf_def all_windows_def)

lemma move_focus_tiled_other:
  assumes wf: "wf s" and ft: "focus_type (current s) = TILE"
    and ne: "tiled_windows (current s) \<noteq> []"
    and t: "unat index < length (workspaces s)" and neq: "unat index \<noteq> workspace s"
  shows "\<exists>w s'. tiled_focus (current s) = Link w \<and> w \<in> set (tiled_windows (current s)) \<and>
           move_focus_to_workspace index s = Inr s' \<and> wf s' \<and>
           workspace s' = workspace s \<and> length (workspaces s') = length (workspaces s) \<and>
           floating s' = floating s \<and> layout_of s' = layout_of s \<and>
           workspaces s' ! workspace s =
             (current s)\<lparr>tiled_windows := removeAll w (tiled_windows (current s)),
                focus_type := (if removeAll w (tiled_windows (current s)) = [] \<and> floated_windows (current s) \<noteq> []
                               then FLOAT else TILE),
                tiled_focus := (if removeAll w (tiled_windows (current s)) = [] then Head (Tiled (workspace s))
                                else Link (successor w (tiled_windows (current s))))\<rparr> \<and>
           workspaces s' ! unat index =
             (workspaces s ! unat index)\<lparr>tiled_windows := w # tiled_windows (workspaces s ! unat index),
                tiled_focus := (if tiled_windows (workspaces s ! unat index) = [] then Link w
                                else tiled_focus (workspaces s ! unat index)),
                focus_type := (if floated_windows (workspaces s ! unat index) = [] then TILE
                               else focus_type (workspaces s ! unat index))\<rparr> \<and>
           (\<forall>i < length (workspaces s). i \<noteq> workspace s \<and> i \<noteq> unat index \<longrightarrow>
              workspaces s' ! i = workspaces s ! i) \<and>
           (\<exists>f es. trace s' = trace s @ [Focus f, Hide_window (Window w)] @ es \<and>
                    (\<forall>e \<in> set es. \<exists>k ws b. e = Layout_arrange k ws b))"
proof -
  define a where "a = workspace s"
  define u where "u = unat index"
  define xs where "xs = tiled_windows (current s)"
  have a: "a < length (workspaces s)" unfolding a_def using wf by (rule wf_active)
  have u: "u < length (workspaces s)" "u \<noteq> a" using t neq by (simp_all add: u_def a_def)
  have d: "distinct (all_windows s)" using wf by (rule wf_distinct)
  have cur: "current s = workspaces s ! a" by (simp add: current_def workspace_at_def a_def)
  obtain w where w: "tiled_focus (current s) = Link w" "w \<in> set xs"
    using cursor_okD [OF _ ne] wf_current [OF wf] unfolding xs_def by blast
  have wa: "w \<in> set (tiled_windows (workspaces s ! a))" using w(2) by (simp add: xs_def cur)
  define nxt where "nxt = successor w xs"
  have nxt: "list_next_link (Tiled a) xs (Link w) = Inr (Link nxt)"
    using w(2) by (simp add: list_next_link_member nxt_def)
  define s1 where "s1 = update_at u (\<lambda>ws. ws\<lparr>tiled_windows := w # tiled_windows ws\<rparr>)
                 (update_at a (\<lambda>ws. ws\<lparr>tiled_windows := removeAll w (tiled_windows ws)\<rparr>) s)"
  have lma: "link_move_after (Link w) (Head (Tiled u)) s = Inr s1"
    unfolding s1_def by (rule link_move_after_tiled_head [OF d a u(1) wa])
  define A1 where "A1 = (workspaces s ! a)\<lparr>tiled_windows := removeAll w xs\<rparr>"
  define U1 where "U1 = (workspaces s ! u)\<lparr>tiled_windows := w # tiled_windows (workspaces s ! u)\<rparr>"
  have s1: "workspaces s1 = (workspaces s)[a := A1, u := U1]" "workspace s1 = a"
    "trace s1 = trace s" "floating s1 = floating s" "layout_of s1 = layout_of s"
    using a u by (simp_all add: s1_def A1_def U1_def xs_def cur a_def)
  have at1: "workspace_at u s1 = U1" "current s1 = A1"
    using a u by (simp_all add: workspace_at_def current_def s1)
  define U2 where "U2 = U1\<lparr>tiled_focus := (if tiled_windows (workspaces s ! u) = [] then Link w
                                              else tiled_focus (workspaces s ! u))\<rparr>"
  define s2 where "s2 = (if list_is_singular (tiled_windows (workspace_at u s1))
                       then update_at u (\<lambda>w. w\<lparr>tiled_focus :=
                              list_first_link (Tiled u) (tiled_windows w)\<rparr>) s1
                       else s1)"
  have s2: "workspaces s2 = (workspaces s)[a := A1, u := U2]" "workspace s2 = a"
    "trace s2 = trace s" "floating s2 = floating s" "layout_of s2 = layout_of s"
    using a u
    by (auto simp: s2_def at1 s1 U2_def U1_def list_is_singular_def list_first_link_def
          list_update_overwrite)
  have at2: "current s2 = A1"
    using a u by (simp add: workspace_at_def current_def s2)
  define A4 where "A4 = A1\<lparr>focus_type := (if removeAll w xs = [] \<and> floated_windows (current s) \<noteq> []
                               then FLOAT else TILE),
                tiled_focus := (if removeAll w xs = [] then Head (Tiled a) else Link nxt)\<rparr>"
  define s3 where "s3 = (if list_is_empty (tiled_windows (current s2)) \<and>
                           \<not> list_is_empty (floated_windows (current s2))
                       then update_at a (\<lambda>w. w\<lparr>focus_type := FLOAT\<rparr>) s2
                       else s2)"
  define s4 where "s4 = update_at a (\<lambda>w. w\<lparr>tiled_focus :=
                 (if list_is_empty (tiled_windows (current s2)) then Head (Tiled a) else Link nxt)\<rparr>) s3"
  have s4: "workspaces s4 = (workspaces s)[a := A4, u := U2]" "workspace s4 = a"
    "trace s4 = trace s" "floating s4 = floating s" "layout_of s4 = layout_of s"
    using a u ft
    by (auto simp: s4_def s3_def at2 s2 A4_def A1_def list_is_empty_def cur
          list_update_swap [of u a] list_update_overwrite focus_type_update_same)
  define f where "f = (case focus_type (workspace_at a s4) of
                    TILE \<Rightarrow> (if tiled_windows (workspace_at a s4) = [] then None
                             else Some (link_entry (tiled_focus (workspace_at a s4))))
                  | FLOAT \<Rightarrow> (if floated_windows (workspace_at a s4) = [] then None
                              else Some (Window (hd (floated_windows (workspace_at a s4))))))"
  define s5 where "s5 = emit [Hide_window (Window w)] (update_focus a s4)"
  have s5: "workspaces s5 = (workspaces s)[a := A4, u := U2]" "workspace s5 = a"
    "trace s5 = trace s @ [Focus f, Hide_window (Window w)]" "floating s5 = floating s"
    "layout_of s5 = layout_of s"
    by (simp_all add: s5_def update_focus_trace s4 f_def)
  have at5: "current s5 = A4"
    using a u by (simp add: workspace_at_def current_def s5)
  have "layout_ok (workspaces s ! a)" using wf_nth [OF wf a] by simp
  then have ok5: "layout_ok (current s5)"
    by (simp add: at5 A4_def A1_def layout_ok_def)
  define es where "es = (if tiled_windows (current s5) = [] then []
                      else [Layout_arrange (layout (current s5)) (tiled_windows (current s5))
                              (state (current s5))])"
  have arr: "arrange s5 = Inr (emit es s5)"
    unfolding es_def by (rule arrange_layout_ok [OF ok5])
  define U6 where "U6 = U2\<lparr>focus_type := (if floated_windows (workspaces s ! u) = [] then TILE
                               else focus_type (workspaces s ! u))\<rparr>"
  define s6 where "s6 = (if list_is_empty (floated_windows (workspace_at u (emit es s5)))
                     then update_at u (\<lambda>w. w\<lparr>focus_type := TILE\<rparr>) (emit es s5)
                     else emit es s5)"
  have s6: "workspaces s6 = (workspaces s)[a := A4, u := U6]" "workspace s6 = a"
    "trace s6 = trace s @ [Focus f, Hide_window (Window w)] @ es" "floating s6 = floating s"
    "layout_of s6 = layout_of s"
    using a u
    by (auto simp: s6_def s5 U6_def U2_def U1_def workspace_at_def list_is_empty_def
          list_update_overwrite)
  have ne': "list_is_empty xs = False"
    using ne by (simp add: list_is_empty_def xs_def)
  have run: "move_focus_to_workspace index s = Inr s6"
    unfolding move_focus_to_workspace_def Let_def
    by (simp only: ft ne' w(1) a_def [symmetric] u_def [symmetric] xs_def [symmetric] nxt lma
          s2_def [symmetric] s3_def [symmetric] s4_def [symmetric] s5_def [symmetric] arr
          s6_def [symmetric] velox_workspace_focus_type.case if_False seq_Inr u(1) not_True_eq_False
          simp_thms link_entry.simps)
  have es: "\<forall>e \<in> set es. \<exists>k ws b. e = Layout_arrange k ws b"
    by (simp add: es_def)
  have c1: "workspaces s6 ! workspace s =
             (current s)\<lparr>tiled_windows := removeAll w (tiled_windows (current s)),
                focus_type := (if removeAll w (tiled_windows (current s)) = [] \<and> floated_windows (current s) \<noteq> []
                               then FLOAT else TILE),
                tiled_focus := (if removeAll w (tiled_windows (current s)) = [] then Head (Tiled (workspace s))
                                else Link (successor w (tiled_windows (current s))))\<rparr>"
    using a u by (simp add: s6 A4_def A1_def a_def [symmetric] xs_def nxt_def cur)
  have c2: "workspaces s6 ! unat index =
             (workspaces s ! unat index)\<lparr>tiled_windows := w # tiled_windows (workspaces s ! unat index),
                tiled_focus := (if tiled_windows (workspaces s ! unat index) = [] then Link w
                                else tiled_focus (workspaces s ! unat index)),
                focus_type := (if floated_windows (workspaces s ! unat index) = [] then TILE
                               else focus_type (workspaces s ! unat index))\<rparr>"
    using a u by (simp add: s6 U6_def U2_def U1_def u_def [symmetric])
  have c3: "\<forall>i < length (workspaces s). i \<noteq> workspace s \<and> i \<noteq> unat index \<longrightarrow>
              workspaces s6 ! i = workspaces s ! i"
    by (simp add: s6 a_def [symmetric] u_def [symmetric])
  have c4: "\<exists>f es. trace s6 = trace s @ [Focus f, Hide_window (Window w)] @ es \<and>
                    (\<forall>e \<in> set es. \<exists>k ws b. e = Layout_arrange k ws b)"
    using s6(3) es by blast
  have c5: "workspace s6 = workspace s" "length (workspaces s6) = length (workspaces s)"
    "floating s6 = floating s" "layout_of s6 = layout_of s"
    by (simp_all add: s6 a_def)
  have c6: "w \<in> set (tiled_windows (current s))"
    using w(2) by (simp add: xs_def)
  have dxs: "distinct xs"
    using ws_distinct [OF d a] by (simp add: xs_def cur)
  have "distinct (all_windows s1)"
  proof -
    have del: "list_del w s = update_at a (\<lambda>ws. ws\<lparr>tiled_windows := removeAll w (tiled_windows ws)\<rparr>) s"
      by (rule list_del_tiled [OF d a wa])
    have dd: "distinct (all_windows (list_del w s))" "w \<notin> set (all_windows (list_del w s))"
      using distinct_all_windows_list_del [OF d] by blast+
    have "distinct (ws_windows (workspaces (list_del w s) ! u))"
      using ws_distinct [OF dd(1), of u] u(1) by (simp add: ws_windows_def)
    moreover have "w \<notin> set (ws_windows (workspaces (list_del w s) ! u))"
      using dd(2) u(1) in_all_windows [of u "list_del w s" w] by auto
    ultimately show ?thesis
      unfolding s1_def del [symmetric]
      using dd u(1) by (intro distinct_insert_window [where n = w]) (auto simp: ws_windows_def)
  qed
  moreover have "map ws_windows (workspaces s6) = map ws_windows (workspaces s1)"
    by (simp add: s6 s1 map_update ws_windows_def A4_def U6_def U2_def)
  then have "all_windows s6 = all_windows s1"
    by (rule all_windows_cong)
  ultimately have d6: "distinct (all_windows s6)"
    by simp
  have oka: "cursor_ok (workspaces s ! a)" "layout_ok (workspaces s ! a)"
    and oku: "cursor_ok (workspaces s ! u)" "layout_ok (workspaces s ! u)"
    using wf_nth [OF wf a] wf_nth [OF wf u(1)] by simp_all
  have "cursor_ok A4"
    using successor_removeAll [OF dxs w(2)] by (simp add: cursor_ok_def A4_def A1_def nxt_def)
  moreover have "layout_ok A4" using oka(2) by (simp add: layout_ok_def A4_def A1_def)
  moreover have "cursor_ok U6"
    using oku(1) by (auto simp: cursor_ok_def U6_def U2_def U1_def split: link.splits)
  moreover have "layout_ok U6" using oku(2) by (simp add: layout_ok_def U6_def U2_def U1_def)
  moreover have "list_all (\<lambda>ws. cursor_ok ws \<and> layout_ok ws) (workspaces s)"
    using wf by (simp add: wf_def)
  ultimately have "list_all (\<lambda>ws. cursor_ok ws \<and> layout_ok ws) (workspaces s6)"
    by (simp add: s6 list_all_update)
  then have wf6: "wf s6"
    using d6 a by (simp add: wf_def s6)
  show ?thesis
    using w(1) c6 run wf6 c5 c1 c2 c3 c4
    by (intro exI [of _ w] exI [of _ s6] conjI) assumption+
qed


lemma move_focus_tiled_same:
  assumes wf: "wf s" and ft: "focus_type (current s) = TILE"
    and ne: "tiled_windows (current s) \<noteq> []"
    and same: "unat index = workspace s"
  shows "\<exists>w s'. tiled_focus (current s) = Link w \<and> w \<in> set (tiled_windows (current s)) \<and>
           move_focus_to_workspace index s = Inr s' \<and> wf s' \<and>
           workspace s' = workspace s \<and> floating s' = floating s \<and> layout_of s' = layout_of s \<and>
           workspaces s' = (workspaces s)[workspace s :=
             (current s)\<lparr>tiled_windows := w # removeAll w (tiled_windows (current s)),
                          tiled_focus := Link (successor w (tiled_windows (current s)))\<rparr>] \<and>
           trace s' = trace s @
             [Focus (Some (Window (successor w (tiled_windows (current s))))),
              Hide_window (Window w),
              Layout_arrange (layout (current s)) (w # removeAll w (tiled_windows (current s)))
                (state (current s))]"
proof -
  define a where "a = workspace s"
  define xs where "xs = tiled_windows (current s)"
  have a: "a < length (workspaces s)" unfolding a_def using wf by (rule wf_active)
  have idx: "unat index = a" using same by (simp add: a_def)
  have d: "distinct (all_windows s)" using wf by (rule wf_distinct)
  have cur: "current s = workspaces s ! a" by (simp add: current_def workspace_at_def a_def)
  obtain w where w: "tiled_focus (current s) = Link w" "w \<in> set xs"
    using cursor_okD [OF _ ne] wf_current [OF wf] unfolding xs_def by blast
  have wa: "w \<in> set (tiled_windows (workspaces s ! a))" using w(2) by (simp add: xs_def cur)
  define nxt where "nxt = successor w xs"
  have nxt: "list_next_link (Tiled a) xs (Link w) = Inr (Link nxt)"
    using w(2) by (simp add: list_next_link_member nxt_def)
  define s1 where "s1 = update_at a (\<lambda>ws. ws\<lparr>tiled_windows := w # tiled_windows ws\<rparr>)
                 (update_at a (\<lambda>ws. ws\<lparr>tiled_windows := removeAll w (tiled_windows ws)\<rparr>) s)"
  have lma: "link_move_after (Link w) (Head (Tiled a)) s = Inr s1"
    unfolding s1_def by (rule link_move_after_tiled_head [OF d a a wa])
  define A1 where "A1 = (workspaces s ! a)\<lparr>tiled_windows := w # removeAll w xs\<rparr>"
  have s1: "workspaces s1 = (workspaces s)[a := A1]" "workspace s1 = a"
    "trace s1 = trace s" "floating s1 = floating s" "layout_of s1 = layout_of s"
    using a by (simp_all add: s1_def A1_def xs_def cur a_def)
  have at1: "workspace_at a s1 = A1"
    using a by (simp add: workspace_at_def s1)
  define s2 where "s2 = (if list_is_singular (tiled_windows (workspace_at a s1))
                       then update_at a (\<lambda>w. w\<lparr>tiled_focus :=
                              list_first_link (Tiled a) (tiled_windows w)\<rparr>) s1
                       else s1)"
  have s2: "workspaces s2 = (workspaces s)[a := A1]" "workspace s2 = a"
    "trace s2 = trace s" "floating s2 = floating s" "layout_of s2 = layout_of s"
    using a w(1)
    by (auto simp: s2_def at1 s1 A1_def list_is_singular_def list_first_link_def cur
          tiled_focus_update_same)
  have at2: "current s2 = A1"
    using a by (simp add: workspace_at_def current_def s2)
  define A4 where "A4 = A1\<lparr>tiled_focus := Link nxt\<rparr>"
  define s3 where "s3 = (if list_is_empty (tiled_windows (current s2)) \<and>
                           \<not> list_is_empty (floated_windows (current s2))
                       then update_at a (\<lambda>w. w\<lparr>focus_type := FLOAT\<rparr>) s2
                       else s2)"
  define s4 where "s4 = update_at a (\<lambda>w. w\<lparr>tiled_focus :=
                 (if list_is_empty (tiled_windows (current s2)) then Head (Tiled a) else Link nxt)\<rparr>) s3"
  have s4: "workspaces s4 = (workspaces s)[a := A4]" "workspace s4 = a"
    "trace s4 = trace s" "floating s4 = floating s" "layout_of s4 = layout_of s"
    using a
    by (simp_all add: s4_def s3_def at2 s2 A4_def A1_def list_is_empty_def)
  have at4: "workspace_at a s4 = A4"
    using a by (simp add: workspace_at_def s4)
  define s5 where "s5 = emit [Hide_window (Window w)] (update_focus a s4)"
  have s5: "workspaces s5 = (workspaces s)[a := A4]" "workspace s5 = a"
    "trace s5 = trace s @ [Focus (Some (Window nxt)), Hide_window (Window w)]"
    "floating s5 = floating s" "layout_of s5 = layout_of s"
    using ft by (simp_all add: s5_def update_focus_trace s4 at4 A4_def A1_def cur)
  have at5: "current s5 = A4" "workspace_at a s5 = A4"
    using a by (simp_all add: workspace_at_def current_def s5)
  have "layout_ok (workspaces s ! a)" using wf_nth [OF wf a] by simp
  then have ok5: "layout_ok (current s5)"
    by (simp add: at5 A4_def A1_def layout_ok_def)
  define es where "es = (if tiled_windows (current s5) = [] then []
                      else [Layout_arrange (layout (current s5)) (tiled_windows (current s5))
                              (state (current s5))])"
  have arr: "arrange s5 = Inr (emit es s5)"
    unfolding es_def by (rule arrange_layout_ok [OF ok5])
  have es: "es = [Layout_arrange (layout (current s)) (w # removeAll w xs) (state (current s))]"
    by (simp add: es_def at5 A4_def A1_def cur)
  define s6 where "s6 = (if list_is_empty (floated_windows (workspace_at a (emit es s5)))
                     then update_at a (\<lambda>w. w\<lparr>focus_type := TILE\<rparr>) (emit es s5)
                     else emit es s5)"
  have s6: "workspaces s6 = (workspaces s)[a := A4]" "workspace s6 = a"
    "trace s6 = trace s @ [Focus (Some (Window nxt)), Hide_window (Window w)] @ es"
    "floating s6 = floating s" "layout_of s6 = layout_of s"
    using a ft
    by (auto simp: s6_def s5 at5 A4_def A1_def cur focus_type_update_same)
  have ne': "list_is_empty xs = False"
    using ne by (simp add: list_is_empty_def xs_def)
  have run: "move_focus_to_workspace index s = Inr s6"
    unfolding move_focus_to_workspace_def Let_def
    by (simp only: ft ne' w(1) idx a_def [symmetric] xs_def [symmetric] nxt lma
          s2_def [symmetric] s3_def [symmetric] s4_def [symmetric] s5_def [symmetric] arr
          s6_def [symmetric] velox_workspace_focus_type.case if_False seq_Inr a not_True_eq_False
          simp_thms link_entry.simps)
  have dxs: "distinct xs"
    using ws_distinct [OF d a] by (simp add: xs_def cur)
  have "distinct (all_windows s1)"
  proof -
    have del: "list_del w s = update_at a (\<lambda>ws. ws\<lparr>tiled_windows := removeAll w (tiled_windows ws)\<rparr>) s"
      by (rule list_del_tiled [OF d a wa])
    have dd: "distinct (all_windows (list_del w s))" "w \<notin> set (all_windows (list_del w s))"
      using distinct_all_windows_list_del [OF d] by blast+
    have "distinct (ws_windows (workspaces (list_del w s) ! a))"
      using ws_distinct [OF dd(1), of a] a by (simp add: ws_windows_def)
    moreover have "w \<notin> set (ws_windows (workspaces (list_del w s) ! a))"
      using dd(2) a in_all_windows [of a "list_del w s" w] by auto
    ultimately show ?thesis
      unfolding s1_def del [symmetric]
      using dd a by (intro distinct_insert_window [where n = w]) (auto simp: ws_windows_def)
  qed
  moreover have "map ws_windows (workspaces s6) = map ws_windows (workspaces s1)"
    by (simp add: s6 s1 map_update ws_windows_def A4_def)
  then have "all_windows s6 = all_windows s1"
    by (rule all_windows_cong)
  ultimately have d6: "distinct (all_windows s6)"
    by simp
  have oka: "cursor_ok (workspaces s ! a)" "layout_ok (workspaces s ! a)"
    using wf_nth [OF wf a] by simp_all
  have "xs \<noteq> []" using ne by (simp add: xs_def)
  then have "nxt \<in> set xs" unfolding nxt_def by (rule successor_in_set)
  then have "nxt = w \<or> nxt \<in> set (removeAll w xs)" by auto
  then have "cursor_ok A4"
    by (auto simp: cursor_ok_def A4_def A1_def)
  moreover have "layout_ok A4" using oka(2) by (simp add: layout_ok_def A4_def A1_def)
  moreover have "list_all (\<lambda>ws. cursor_ok ws \<and> layout_ok ws) (workspaces s)"
    using wf by (simp add: wf_def)
  ultimately have "list_all (\<lambda>ws. cursor_ok ws \<and> layout_ok ws) (workspaces s6)"
    by (simp add: s6 list_all_update)
  then have wf6: "wf s6"
    using d6 a by (simp add: wf_def s6)
  have c1: "workspaces s6 = (workspaces s)[workspace s :=
             (current s)\<lparr>tiled_windows := w # removeAll w (tiled_windows (current s)),
                          tiled_focus := Link (successor w (tiled_windows (current s)))\<rparr>]"
    by (simp add: s6 A4_def A1_def a_def [symmetric] xs_def nxt_def cur)
  have c2: "trace s6 = trace s @
             [Focus (Some (Window (successor w (tiled_windows (current s))))),
              Hide_window (Window w),
              Layout_arrange (layout (current s)) (w # removeAll w (tiled_windows (current s)))
                (state (current s))]"
    by (simp add: s6 es nxt_def xs_def)
  have c5: "workspace s6 = workspace s" "floating s6 = floating s" "layout_of s6 = layout_of s"
    by (simp_all add: s6 a_def)
  have c6: "w \<in> set (tiled_windows (current s))"
    using w(2) by (simp add: xs_def)
  show ?thesis
    using w(1) c6 run wf6 c5 c1 c2
    by (intro exI [of _ w] exI [of _ s6] conjI) assumption+
qed

lemma cursor_ok_iff:
  "cursor_ok ws \<longleftrightarrow>
     (tiled_windows ws \<noteq> [] \<longrightarrow> (\<exists>w. tiled_focus ws = Link w \<and> w \<in> set (tiled_windows ws)))"
  by (auto simp: cursor_ok_def split: link.splits)

lemma layout_ok_iff: "layout_ok ws \<longleftrightarrow> layouts ws \<noteq> [] \<and> (\<exists>e. layout ws = Link e)"
  by (auto simp: layout_ok_def split: link.splits)

lemma all_windows_update_same:
  assumes "i < length (workspaces s) \<Longrightarrow> ws_windows (f (workspaces s ! i)) = ws_windows (workspaces s ! i)"
  shows "all_windows (update_at i f s) = all_windows s"
proof (cases "i < length (workspaces s)")
  case True
  then have "(map ws_windows (workspaces s))[i := ws_windows (f (workspaces s ! i))] = map ws_windows (workspaces s)"
    using assms by (simp add: list_update_same_conv)
  then show ?thesis by (simp add: all_windows_def map_update)
next
  case False
  then show ?thesis by (simp add: all_windows_def list_update_beyond not_less)
qed

lemma wf_update_at:
  assumes "wf s"
    and "i < length (workspaces s) \<Longrightarrow> cursor_ok (f (workspaces s ! i)) \<and> layout_ok (f (workspaces s ! i))"
    and "distinct (all_windows (update_at i f s))"
  shows "wf (update_at i f s)"
proof (cases "i < length (workspaces s)")
  case True
  have "list_all (\<lambda>ws. cursor_ok ws \<and> layout_ok ws) (workspaces s)"
    using assms(1) by (simp add: wf_def)
  then have "list_all (\<lambda>ws. cursor_ok ws \<and> layout_ok ws) ((workspaces s)[i := f (workspaces s ! i)])"
    using assms(2) True by (intro list_all_update) simp_all
  then show ?thesis using assms(1,3) by (simp add: wf_def)
next
  case False
  then show ?thesis using assms(1,3) by (simp add: wf_def list_update_beyond not_less)
qed

lemma wf_update_focus_type: "wf s \<Longrightarrow> wf (update_at i (\<lambda>w. w\<lparr>focus_type := x\<rparr>) s)"
proof (rule wf_update_at)
  assume wf: "wf s"
  then show "wf s" .
  show "cursor_ok ((workspaces s ! i)\<lparr>focus_type := x\<rparr>) \<and> layout_ok ((workspaces s ! i)\<lparr>focus_type := x\<rparr>)"
    if "i < length (workspaces s)"
    using wf_nth [OF wf that] by (simp add: cursor_ok_iff layout_ok_iff)
  have "all_windows (update_at i (\<lambda>w. w\<lparr>focus_type := x\<rparr>) s) = all_windows s"
    by (rule all_windows_update_same) (simp add: ws_windows_def)
  then show "distinct (all_windows (update_at i (\<lambda>w. w\<lparr>focus_type := x\<rparr>) s))"
    using wf by (simp add: wf_distinct)
qed

lemma wf_update_focus: "wf s \<Longrightarrow> wf (update_focus i s)"
  by (simp add: update_focus_trace)

lemma wf_arrange: "wf s \<Longrightarrow> \<exists>es. arrange s = Inr (emit es s)"
  using arrange_layout_ok [of s] wf_current [of s] by blast

lemma move_focus_float_wf:
  assumes wf: "wf s" and ft: "focus_type (current s) = FLOAT"
    and t: "unat index < length (workspaces s)"
  shows "\<exists>s'. move_focus_to_workspace index s = Inr s' \<and> wf s' \<and>
           length (workspaces s') = length (workspaces s)"
proof (cases "floated_windows (current s)")
  case Nil
  then show ?thesis
    using wf ft by (simp add: move_focus_to_workspace_def list_is_empty_def)
next
  case (Cons n fs)
  define a where "a = workspace s"
  define u where "u = unat index"
  have a: "a < length (workspaces s)" unfolding a_def using wf by (rule wf_active)
  have u: "u < length (workspaces s)" using t by (simp add: u_def)
  have d: "distinct (all_windows s)" using wf by (rule wf_distinct)
  have cur: "current s = workspaces s ! a" by (simp add: current_def workspace_at_def a_def)
  have na: "n \<in> set (floated_windows (workspaces s ! a))" using Cons by (simp add: cur)
  define sd where "sd = list_del n s"
  have del: "sd = update_at a (\<lambda>ws. ws\<lparr>floated_windows := removeAll n (floated_windows ws)\<rparr>) s"
    unfolding sd_def by (rule list_del_floated [OF d a na])
  have dd: "distinct (all_windows sd)" "n \<notin> set (all_windows sd)"
    using distinct_all_windows_list_del [OF d] by (simp_all add: sd_def)
  have wfd: "wf sd"
    unfolding del
  proof (rule wf_update_at [OF wf])
    show "distinct (all_windows (update_at a (\<lambda>ws. ws\<lparr>floated_windows := removeAll n (floated_windows ws)\<rparr>) s))"
      using dd(1) by (simp add: del)
    show "cursor_ok ((workspaces s ! a)\<lparr>floated_windows := removeAll n (floated_windows (workspaces s ! a))\<rparr>) \<and>
          layout_ok ((workspaces s ! a)\<lparr>floated_windows := removeAll n (floated_windows (workspaces s ! a))\<rparr>)"
      using wf_nth [OF wf a] by (simp add: cursor_ok_iff layout_ok_iff)
  qed
  have lend: "length (workspaces sd) = length (workspaces s)" by (simp add: sd_def)
  define s1 where "s1 = update_at u (\<lambda>ws. ws\<lparr>floated_windows := floated_windows ws @ [n]\<rparr>) sd"
  have app: "list_append (Floated u) n sd = Inr s1"
    using u by (simp add: list_append_def insert_before_def s1_def lend)
  have wf1: "wf s1"
    unfolding s1_def
  proof (rule wf_update_at [OF wfd])
    have "distinct (ws_windows (workspaces sd ! u))"
      using ws_distinct [OF dd(1), of u] u by (simp add: ws_windows_def lend)
    moreover have "n \<notin> set (ws_windows (workspaces sd ! u))"
      using dd(2) u in_all_windows [of u sd n] by (auto simp: lend)
    ultimately show "distinct (all_windows (update_at u (\<lambda>ws. ws\<lparr>floated_windows := floated_windows ws @ [n]\<rparr>) sd))"
      using dd u by (intro distinct_insert_window [where n = n]) (auto simp: ws_windows_def lend)
    show "cursor_ok ((workspaces sd ! u)\<lparr>floated_windows := floated_windows (workspaces sd ! u) @ [n]\<rparr>) \<and>
          layout_ok ((workspaces sd ! u)\<lparr>floated_windows := floated_windows (workspaces sd ! u) @ [n]\<rparr>)"
      using wf_nth [OF wfd, of u] u by (simp add: cursor_ok_iff layout_ok_iff lend)
  qed
  have len1: "length (workspaces s1) = length (workspaces s)" "workspace s1 = a"
    by (simp_all add: s1_def sd_def a_def)
  define s2 where "s2 = (if list_is_empty (floated_windows (current s1))
                           then update_at a (\<lambda>w. w\<lparr>focus_type := TILE\<rparr>) s1
                           else s1)"
  have wf2: "wf s2" "length (workspaces s2) = length (workspaces s)"
    using wf1 len1 by (simp_all add: s2_def wf_update_focus_type)
  define s3 where "s3 = emit [Hide_window (Window n)] (update_focus a s2)"
  have wf3: "wf s3" "length (workspaces s3) = length (workspaces s)"
    using wf2 by (simp_all add: s3_def wf_update_focus update_focus_trace)
  obtain es where arr: "arrange s3 = Inr (emit es s3)"
    using wf_arrange [OF wf3(1)] by blast
  define s4 where "s4 = (if list_is_empty (tiled_windows (workspace_at u (emit es s3)))
                         then update_at u (\<lambda>w. w\<lparr>focus_type := FLOAT\<rparr>) (emit es s3)
                         else emit es s3)"
  have wf4: "wf s4" "length (workspaces s4) = length (workspaces s)"
    using wf3 by (simp_all add: s4_def wf_update_focus_type)
  have first: "list_first (Floated a) (floated_windows (current s)) = Window n"
    using Cons by (simp add: list_first_def list_first_link_def)
  have ne: "list_is_empty (floated_windows (current s)) = False"
    using Cons by (simp add: list_is_empty_def)
  have "move_focus_to_workspace index s = Inr s4"
    unfolding move_focus_to_workspace_def Let_def
    by (simp only: ft ne first a_def [symmetric] u_def [symmetric] sd_def [symmetric] app
          s2_def [symmetric] s3_def [symmetric] arr s4_def [symmetric]
          velox_workspace_focus_type.case entry.case if_False seq_Inr u not_True_eq_False simp_thms)
  then show ?thesis using wf4 by blast
qed

section \<open>Toggling the floating flag\<close>

lemma link_move_after_head_tiled:
  "w \<in> set (all_windows s) \<Longrightarrow> t < length (workspaces s) \<Longrightarrow>
     link_move_after (Link w) (Head (Tiled t)) s =
       Inr (update_at t (\<lambda>ws. ws\<lparr>tiled_windows := w # tiled_windows ws\<rparr>) (list_del w s))"
  by (simp add: link_move_after_def insert_after_def)

lemma link_move_after_head_floated:
  "w \<in> set (all_windows s) \<Longrightarrow> t < length (workspaces s) \<Longrightarrow>
     link_move_after (Link w) (Head (Floated t)) s =
       Inr (update_at t (\<lambda>ws. ws\<lparr>floated_windows := w # floated_windows ws\<rparr>) (list_del w s))"
  by (simp add: link_move_after_def insert_after_def)

lemma link_move_before_head_floated:
  "w \<in> set (all_windows s) \<Longrightarrow> t < length (workspaces s) \<Longrightarrow>
     link_move_before (Link w) (Head (Floated t)) s =
       Inr (update_at t (\<lambda>ws. ws\<lparr>floated_windows := floated_windows ws @ [w]\<rparr>) (list_del w s))"
  by (simp add: link_move_before_def insert_before_def)

lemma wf_replace:
  assumes "wf s" "a < length (workspaces s)" "workspaces s' = (workspaces s)[a := A]"
    "workspace s' = workspace s" "cursor_ok A" "layout_ok A" "distinct (all_windows s')"
  shows "wf s'"
proof -
  have "list_all (\<lambda>ws. cursor_ok ws \<and> layout_ok ws) (workspaces s)"
    using assms(1) by (simp add: wf_def)
  then have "list_all (\<lambda>ws. cursor_ok ws \<and> layout_ok ws) (workspaces s')"
    unfolding assms(3) using assms(5,6) by (intro list_all_update) simp_all
  then show ?thesis
    using assms(1,3,4,7) by (simp add: wf_def)
qed

lemma distinct_move_within:
  assumes d: "distinct (all_windows s)" and a: "a < length (workspaces s)"
    and s': "map ws_windows (workspaces s') = (map ws_windows (workspaces s))[a := ys]"
    and ys: "distinct ys" "set ys = set (ws_windows (workspaces s ! a))"
  shows "distinct (all_windows s')"
proof -
  have "distinct (concat ((map ws_windows (workspaces s))[a := ys]))"
  proof (rule distinct_concat_update [where N = "{}"])
    show "a < length (map ws_windows (workspaces s))" using a by simp
    show "distinct (concat (map ws_windows (workspaces s)))" using d by (simp add: all_windows_def)
    show "distinct ys" by (rule ys(1))
    show "set ys \<subseteq> set (map ws_windows (workspaces s) ! a) \<union> {}" using ys(2) a by simp
    show "{} \<inter> set (concat (map ws_windows (workspaces s))) = {}" by simp
  qed
  then show ?thesis by (simp add: all_windows_def s')
qed

lemma toggle_floating_tile:
  assumes wf: "wf s" and ft: "focus_type (current s) = TILE"
    and ne: "tiled_windows (current s) \<noteq> []"
  shows "\<exists>w s'. tiled_focus (current s) = Link w \<and> w \<in> set (tiled_windows (current s)) \<and>
           toggle_floating s = Inr s' \<and> wf s' \<and>
           workspace s' = workspace s \<and> floating s' = insert w (floating s) \<and>
           layout_of s' = layout_of s \<and>
           workspaces s' = (workspaces s)[workspace s :=
             (current s)\<lparr>tiled_focus := Link (successor w (tiled_windows (current s))),
                          tiled_windows := removeAll w (tiled_windows (current s)),
                          floated_windows := w # floated_windows (current s),
                          focus_type := FLOAT\<rparr>] \<and>
           (\<exists>es. trace s' = trace s @ Focus (Some (Window w)) # es \<and>
                 (\<forall>e \<in> set es. \<exists>k ws b. e = Layout_arrange k ws b))"
proof -
  define a where "a = workspace s"
  define xs where "xs = tiled_windows (current s)"
  have a: "a < length (workspaces s)" unfolding a_def using wf by (rule wf_active)
  have d: "distinct (all_windows s)" using wf by (rule wf_distinct)
  have cur: "current s = workspaces s ! a" by (simp add: current_def workspace_at_def a_def)
  obtain w where w: "tiled_focus (current s) = Link w" "w \<in> set xs"
    using cursor_okD [OF _ ne] wf_current [OF wf] unfolding xs_def by blast
  have wa: "w \<in> set (tiled_windows (workspaces s ! a))" using w(2) by (simp add: xs_def cur)
  define nxt where "nxt = successor w xs"
  have nxt: "list_next_link (Tiled a) xs (Link w) = Inr (Link nxt)"
    using w(2) by (simp add: list_next_link_member nxt_def)
  define s1 where "s1 = update_at a (\<lambda>w. w\<lparr>tiled_focus := Link nxt\<rparr>) s"
  have aw1: "all_windows s1 = all_windows s"
    unfolding s1_def by (rule all_windows_update_same) (simp add: ws_windows_def)
  have d1: "distinct (all_windows s1)" using d aw1 by simp
  have wa1: "w \<in> set (tiled_windows (workspaces s1 ! a))" "a < length (workspaces s1)"
    using wa a by (simp_all add: s1_def)
  have win1: "w \<in> set (all_windows s1)"
    using in_all_windows [OF a, of w] wa by (simp add: aw1 ws_windows_def)
  define s2 where "s2 = update_at a (\<lambda>ws. ws\<lparr>floated_windows := w # floated_windows ws\<rparr>) (list_del w s1)"
  have lma: "link_move_after (Link w) (Head (Floated a)) s1 = Inr s2"
    unfolding s2_def using win1 wa1(2) by (rule link_move_after_head_floated)
  define A where "A = (workspaces s ! a)\<lparr>tiled_focus := Link nxt, tiled_windows := removeAll w xs,
                          floated_windows := w # floated_windows (workspaces s ! a)\<rparr>"
  have s2: "workspaces s2 = (workspaces s)[a := A]" "workspace s2 = a"
    "trace s2 = trace s" "floating s2 = floating s" "layout_of s2 = layout_of s"
    using a unfolding s2_def list_del_tiled [OF d1 wa1(2) wa1(1)]
    by (simp_all add: s1_def A_def xs_def cur a_def)
  define s3 where "s3 = s2\<lparr>floating := insert w (floating s2)\<rparr>"
  have sf: "set_floating (Window w) True s2 = Inr s3"
    by (simp add: set_floating_def s3_def)
  define s4 where "s4 = update_at a (\<lambda>w. w\<lparr>focus_type := FLOAT\<rparr>) s3"
  define A' where "A' = A\<lparr>focus_type := FLOAT\<rparr>"
  have s4: "workspaces s4 = (workspaces s)[a := A']" "workspace s4 = a"
    "trace s4 = trace s" "floating s4 = insert w (floating s)" "layout_of s4 = layout_of s"
    using a by (simp_all add: s4_def s3_def s2 A'_def)
  have at4: "workspace_at a s4 = A'"
    using a by (simp add: workspace_at_def s4)
  define s5 where "s5 = restack (update_focus a s4)"
  have s5: "workspaces s5 = (workspaces s)[a := A']" "workspace s5 = a"
    "trace s5 = trace s @ [Focus (Some (Window w))]" "floating s5 = insert w (floating s)"
    "layout_of s5 = layout_of s"
    by (simp_all add: s5_def restack_def update_focus_trace s4 at4 A'_def A_def)
  have at5: "current s5 = A'"
    using a by (simp add: workspace_at_def current_def s5)
  have oka: "cursor_ok (workspaces s ! a)" "layout_ok (workspaces s ! a)"
    using wf_nth [OF wf a] by simp_all
  have ok5: "layout_ok (current s5)"
    using oka(2) by (simp add: at5 A'_def A_def layout_ok_iff)
  define es where "es = (if tiled_windows (current s5) = [] then []
                      else [Layout_arrange (layout (current s5)) (tiled_windows (current s5))
                              (state (current s5))])"
  have arr: "arrange s5 = Inr (emit es s5)"
    unfolding es_def by (rule arrange_layout_ok [OF ok5])
  have ne': "list_is_empty xs = False"
    using ne by (simp add: list_is_empty_def xs_def)
  have run: "toggle_floating s = Inr (emit es s5)"
    unfolding toggle_floating_def Let_def
    by (simp only: ft ne' w(1) a_def [symmetric] xs_def [symmetric] nxt s1_def [symmetric] lma sf
          s4_def [symmetric] s5_def [symmetric] arr if_True seq_Inr simp_thms
          link_entry.simps entry_link_def entry.case)
  have dxs: "distinct xs" "w \<notin> set (floated_windows (workspaces s ! a))"
    using ws_distinct [OF d a] wa by (auto simp: xs_def cur)
  have "distinct (all_windows (emit es s5))"
  proof (rule distinct_move_within [OF d a])
    show "map ws_windows (workspaces (emit es s5)) =
            (map ws_windows (workspaces s))[a := removeAll w xs @ w # floated_windows (workspaces s ! a)]"
      by (simp add: s5 map_update ws_windows_def A'_def A_def)
    show "distinct (removeAll w xs @ w # floated_windows (workspaces s ! a))"
      using dxs ws_distinct [OF d a] by (auto simp: xs_def cur distinct_removeAll)
    show "set (removeAll w xs @ w # floated_windows (workspaces s ! a)) = set (ws_windows (workspaces s ! a))"
      using wa by (auto simp: ws_windows_def xs_def cur)
  qed
  moreover have "cursor_ok A'"
    using successor_removeAll [OF dxs(1) w(2)] by (simp add: cursor_ok_iff A'_def A_def nxt_def)
  moreover have "layout_ok A'"
    using oka(2) by (simp add: A'_def A_def layout_ok_iff)
  ultimately have wf': "wf (emit es s5)"
    using a by (intro wf_replace [OF wf a, where A = A']) (simp_all add: s5 a_def)
  have c1: "workspaces (emit es s5) = (workspaces s)[workspace s :=
             (current s)\<lparr>tiled_focus := Link (successor w (tiled_windows (current s))),
                          tiled_windows := removeAll w (tiled_windows (current s)),
                          floated_windows := w # floated_windows (current s),
                          focus_type := FLOAT\<rparr>]"
    by (simp add: s5 A'_def A_def a_def [symmetric] xs_def nxt_def cur)
  have c2: "\<exists>es'. trace (emit es s5) = trace s @ Focus (Some (Window w)) # es' \<and>
                 (\<forall>e \<in> set es'. \<exists>k ws b. e = Layout_arrange k ws b)"
    by (rule exI [of _ es]) (simp add: s5 es_def)
  have c5: "workspace (emit es s5) = workspace s" "floating (emit es s5) = insert w (floating s)"
    "layout_of (emit es s5) = layout_of s"
    by (simp_all add: s5 a_def)
  have c6: "w \<in> set (tiled_windows (current s))"
    using w(2) by (simp add: xs_def)
  show ?thesis
    using w(1) c6 run wf' c5 c1 c2
    by (intro exI [of _ w] exI [of _ "emit es s5"] conjI) assumption+
qed


lemma toggle_floating_float:
  assumes wf: "wf s" and ft: "focus_type (current s) = FLOAT"
    and fl: "floated_windows (current s) = n # fs"
  shows "\<exists>s'. toggle_floating s = Inr s' \<and> wf s' \<and>
           workspace s' = workspace s \<and> floating s' = floating s - {n} \<and>
           layout_of s' = layout_of s \<and>
           workspaces s' = (workspaces s)[workspace s :=
             (current s)\<lparr>floated_windows := fs,
                          tiled_windows := n # tiled_windows (current s),
                          tiled_focus := Link n,
                          focus_type := TILE\<rparr>] \<and>
           trace s' = trace s @
             [Focus (Some (Window n)),
              Layout_arrange (layout (current s)) (n # tiled_windows (current s)) (state (current s))]"
proof -
  define a where "a = workspace s"
  have a: "a < length (workspaces s)" unfolding a_def using wf by (rule wf_active)
  have d: "distinct (all_windows s)" using wf by (rule wf_distinct)
  have cur: "current s = workspaces s ! a" by (simp add: current_def workspace_at_def a_def)
  have na: "n \<in> set (floated_windows (workspaces s ! a))" using fl by (simp add: cur)
  have nin: "n \<in> set (all_windows s)"
    using in_all_windows [OF a, of n] na by (simp add: ws_windows_def)
  have dws: "distinct (tiled_windows (workspaces s ! a) @ n # fs)"
    using ws_distinct [OF d a] fl by (simp add: cur)
  then have rem: "removeAll n (n # fs) = fs" by simp
  define s1 where "s1 = update_at a (\<lambda>ws. ws\<lparr>tiled_windows := n # tiled_windows ws\<rparr>) (list_del n s)"
  have lma: "link_move_after (Link n) (Head (Tiled a)) s = Inr s1"
    unfolding s1_def using nin a by (rule link_move_after_head_tiled)
  define A where "A = (workspaces s ! a)\<lparr>floated_windows := fs,
                          tiled_windows := n # tiled_windows (workspaces s ! a)\<rparr>"
  have s1: "workspaces s1 = (workspaces s)[a := A]" "workspace s1 = a"
    "trace s1 = trace s" "floating s1 = floating s" "layout_of s1 = layout_of s"
    using a fl rem unfolding s1_def list_del_floated [OF d a na]
    by (simp_all add: A_def cur a_def)
  define s2 where "s2 = update_at a (\<lambda>w. w\<lparr>tiled_focus := Link n\<rparr>) s1"
  define s3 where "s3 = s2\<lparr>floating := floating s2 - {n}\<rparr>"
  have sf: "set_floating (Window n) False s2 = Inr s3"
    by (simp add: set_floating_def s3_def)
  define s4 where "s4 = update_at a (\<lambda>w. w\<lparr>focus_type := TILE\<rparr>) s3"
  define A' where "A' = A\<lparr>tiled_focus := Link n, focus_type := TILE\<rparr>"
  have s4: "workspaces s4 = (workspaces s)[a := A']" "workspace s4 = a"
    "trace s4 = trace s" "floating s4 = floating s - {n}" "layout_of s4 = layout_of s"
    using a by (simp_all add: s4_def s3_def s2_def s1 A'_def)
  have at4: "workspace_at a s4 = A'"
    using a by (simp add: workspace_at_def s4)
  define s5 where "s5 = restack (update_focus a s4)"
  have s5: "workspaces s5 = (workspaces s)[a := A']" "workspace s5 = a"
    "trace s5 = trace s @ [Focus (Some (Window n))]" "floating s5 = floating s - {n}"
    "layout_of s5 = layout_of s"
    by (simp_all add: s5_def restack_def update_focus_trace s4 at4 A'_def A_def)
  have at5: "current s5 = A'"
    using a by (simp add: workspace_at_def current_def s5)
  have oka: "layout_ok (workspaces s ! a)"
    using wf_nth [OF wf a] by simp
  have ok5: "layout_ok (current s5)"
    using oka by (simp add: at5 A'_def A_def layout_ok_iff)
  define es where "es = (if tiled_windows (current s5) = [] then []
                      else [Layout_arrange (layout (current s5)) (tiled_windows (current s5))
                              (state (current s5))])"
  have arr: "arrange s5 = Inr (emit es s5)"
    unfolding es_def by (rule arrange_layout_ok [OF ok5])
  have es: "es = [Layout_arrange (layout (current s)) (n # tiled_windows (current s)) (state (current s))]"
    by (simp add: es_def at5 A'_def A_def cur)
  have ne': "list_is_empty (n # fs) = False"
    by (simp add: list_is_empty_def)
  have first: "list_first (Floated a) (n # fs) = Window n"
    by (simp add: list_first_def list_first_link_def)
  have run: "toggle_floating s = Inr (emit es s5)"
    unfolding toggle_floating_def Let_def
    by (simp only: ft fl ne' first a_def [symmetric] lma s2_def [symmetric] sf
          s4_def [symmetric] s5_def [symmetric] arr if_True if_False seq_Inr simp_thms
          entry_link_def entry.case velox_workspace_focus_type.distinct)
  have "distinct (all_windows (emit es s5))"
  proof (rule distinct_move_within [OF d a])
    show "map ws_windows (workspaces (emit es s5)) =
            (map ws_windows (workspaces s))[a := (n # tiled_windows (workspaces s ! a)) @ fs]"
      by (simp add: s5 map_update ws_windows_def A'_def A_def)
    show "distinct ((n # tiled_windows (workspaces s ! a)) @ fs)"
      using dws by auto
    show "set ((n # tiled_windows (workspaces s ! a)) @ fs) = set (ws_windows (workspaces s ! a))"
      using fl by (auto simp: ws_windows_def cur)
  qed
  moreover have "cursor_ok A'"
    by (simp add: cursor_ok_iff A'_def A_def)
  moreover have "layout_ok A'"
    using oka by (simp add: A'_def A_def layout_ok_iff)
  ultimately have wf': "wf (emit es s5)"
    using a by (intro wf_replace [OF wf a, where A = A']) (simp_all add: s5 a_def)
  have c1: "workspaces (emit es s5) = (workspaces s)[workspace s :=
             (current s)\<lparr>floated_windows := fs,
                          tiled_windows := n # tiled_windows (current s),
                          tiled_focus := Link n,
                          focus_type := TILE\<rparr>]"
    by (simp add: s5 A'_def A_def a_def [symmetric] cur)
  have c2: "trace (emit es s5) = trace s @
             [Focus (Some (Window n)),
              Layout_arrange (layout (current s)) (n # tiled_windows (current s)) (state (current s))]"
    by (simp add: s5 es)
  have c5: "workspace (emit es s5) = workspace s" "floating (emit es s5) = floating s - {n}"
    "layout_of (emit es s5) = layout_of s"
    by (simp_all add: s5 a_def)
  show ?thesis
    using run wf' c5 c1 c2
    by (intro exI [of _ "emit es s5"] conjI) assumption+
qed

section \<open>Changing the focus within a workspace\<close>

lemma wf_floated_change:
  assumes wf: "wf s" and a: "a < length (workspaces s)"
    and s': "workspaces s' = (workspaces s)[a := (workspaces s ! a)\<lparr>floated_windows := fs'\<rparr>]"
      "workspace s' = workspace s"
    and fs': "distinct fs'" "set fs' = set (floated_windows (workspaces s ! a))"
  shows "wf s'"
proof (rule wf_replace [OF wf a s'])
  show "cursor_ok ((workspaces s ! a)\<lparr>floated_windows := fs'\<rparr>)"
    using wf_nth [OF wf a] by (simp add: cursor_ok_iff)
  show "layout_ok ((workspaces s ! a)\<lparr>floated_windows := fs'\<rparr>)"
    using wf_nth [OF wf a] by (simp add: layout_ok_iff)
  have d: "distinct (all_windows s)" using wf by (rule wf_distinct)
  show "distinct (all_windows s')"
  proof (rule distinct_move_within [OF d a])
    show "map ws_windows (workspaces s') =
            (map ws_windows (workspaces s))[a := tiled_windows (workspaces s ! a) @ fs']"
      by (simp add: s' map_update ws_windows_def)
    show "distinct (tiled_windows (workspaces s ! a) @ fs')"
      using ws_distinct [OF d a] fs' by auto
    show "set (tiled_windows (workspaces s ! a) @ fs') = set (ws_windows (workspaces s ! a))"
      using fs' by (simp add: ws_windows_def)
  qed
qed

lemma focus_next_tile:
  assumes wf: "wf s" and ft: "focus_type (current s) = TILE"
    and ne: "\<not> list_is_trivial (tiled_windows (current s))"
  shows "\<exists>w. tiled_focus (current s) = Link w \<and> w \<in> set (tiled_windows (current s)) \<and>
           focus_next s =
             Inr (emit [Focus (Some (Window (successor w (tiled_windows (current s)))))]
                   (update_at (workspace s)
                      (\<lambda>ws. ws\<lparr>tiled_focus := Link (successor w (tiled_windows (current s)))\<rparr>) s))"
proof -
  have ne': "tiled_windows (current s) \<noteq> []"
    using ne by (auto simp: list_is_trivial_def)
  obtain w where w: "tiled_focus (current s) = Link w" "w \<in> set (tiled_windows (current s))"
    using cursor_okD [OF _ ne'] wf_current [OF wf] by blast
  have "focus_next s =
             Inr (emit [Focus (Some (Window (successor w (tiled_windows (current s)))))]
                   (update_at (workspace s)
                      (\<lambda>ws. ws\<lparr>tiled_focus := Link (successor w (tiled_windows (current s)))\<rparr>) s))"
    using ft ne w by (simp add: focus_next_def list_next_link_member Let_def)
  then show ?thesis using w by blast
qed

lemma focus_previous_tile:
  assumes wf: "wf s" and ft: "focus_type (current s) = TILE"
    and ne: "\<not> list_is_trivial (tiled_windows (current s))"
  shows "\<exists>w. tiled_focus (current s) = Link w \<and> w \<in> set (tiled_windows (current s)) \<and>
           focus_previous s =
             Inr (emit [Focus (Some (Window (predecessor w (tiled_windows (current s)))))]
                   (update_at (workspace s)
                      (\<lambda>ws. ws\<lparr>tiled_focus := Link (predecessor w (tiled_windows (current s)))\<rparr>) s))"
proof -
  have ne': "tiled_windows (current s) \<noteq> []"
    using ne by (auto simp: list_is_trivial_def)
  obtain w where w: "tiled_focus (current s) = Link w" "w \<in> set (tiled_windows (current s))"
    using cursor_okD [OF _ ne'] wf_current [OF wf] by blast
  have "focus_previous s =
             Inr (emit [Focus (Some (Window (predecessor w (tiled_windows (current s)))))]
                   (update_at (workspace s)
                      (\<lambda>ws. ws\<lparr>tiled_focus := Link (predecessor w (tiled_windows (current s)))\<rparr>) s))"
    using ft ne w by (simp add: focus_previous_def list_prev_link_member Let_def)
  then show ?thesis using w by blast
qed

lemma wf_update_tiled_focus:
  assumes wf: "wf s" and k: "k \<in> set (tiled_windows (current s))"
  shows "wf (update_at (workspace s) (\<lambda>ws. ws\<lparr>tiled_focus := Link k\<rparr>) s)"
proof (rule wf_update_at [OF wf])
  have cur: "current s = workspaces s ! workspace s" by (simp add: current_def workspace_at_def)
  show "cursor_ok ((workspaces s ! workspace s)\<lparr>tiled_focus := Link k\<rparr>) \<and>
        layout_ok ((workspaces s ! workspace s)\<lparr>tiled_focus := Link k\<rparr>)"
    using wf_current [OF wf] k by (simp add: cursor_ok_iff layout_ok_iff cur)
  have "all_windows (update_at (workspace s) (\<lambda>ws. ws\<lparr>tiled_focus := Link k\<rparr>) s) = all_windows s"
    by (rule all_windows_update_same) (simp add: ws_windows_def)
  then show "distinct (all_windows (update_at (workspace s) (\<lambda>ws. ws\<lparr>tiled_focus := Link k\<rparr>) s))"
    using wf by (simp add: wf_distinct)
qed

lemma focus_next_float:
  assumes wf: "wf s" and ft: "focus_type (current s) = FLOAT"
    and ne: "\<not> list_is_trivial (floated_windows (current s))"
  shows "\<exists>s'. focus_next s = Inr s' \<and> wf s' \<and> workspace s' = workspace s \<and>
           workspaces s' = (workspaces s)[workspace s := (current s)\<lparr>floated_windows :=
              last (floated_windows (current s)) # butlast (floated_windows (current s))\<rparr>] \<and>
           trace s' = trace s @ [Focus (Some (Window (last (floated_windows (current s)))))]"
proof -
  define a where "a = workspace s"
  define fs where "fs = floated_windows (current s)"
  define n where "n = last fs"
  have a: "a < length (workspaces s)" unfolding a_def using wf by (rule wf_active)
  have d: "distinct (all_windows s)" using wf by (rule wf_distinct)
  have cur: "current s = workspaces s ! a" by (simp add: current_def workspace_at_def a_def)
  have fne: "fs \<noteq> []" using ne by (auto simp: list_is_trivial_def fs_def)
  have dfs: "distinct fs" using ws_distinct [OF d a] by (simp add: fs_def cur)
  have na: "n \<in> set (floated_windows (workspaces s ! a))"
    using fne by (simp add: n_def fs_def cur)
  have nin: "n \<in> set (all_windows s)"
    using in_all_windows [OF a, of n] na by (simp add: ws_windows_def)
  have rem: "removeAll n fs = butlast fs"
  proof -
    have "fs = butlast fs @ [n]" using fne by (simp add: n_def)
    then have "distinct (butlast fs @ [n])" "removeAll n fs = removeAll n (butlast fs @ [n])"
      using dfs by simp_all
    then show ?thesis by simp
  qed
  define s1 where "s1 = update_at a (\<lambda>ws. ws\<lparr>floated_windows := n # floated_windows ws\<rparr>) (list_del n s)"
  have lma: "link_move_after (Link n) (Head (Floated a)) s = Inr s1"
    unfolding s1_def using nin a by (rule link_move_after_head_floated)
  have s1: "workspaces s1 = (workspaces s)[a := (workspaces s ! a)\<lparr>floated_windows := n # butlast fs\<rparr>]"
    "workspace s1 = a" "trace s1 = trace s"
    using a rem unfolding s1_def list_del_floated [OF d a na]
    by (simp_all add: fs_def cur a_def)
  have wf1: "wf s1"
  proof (rule wf_floated_change [OF wf a s1(1)])
    show "workspace s1 = workspace s" by (simp add: s1 a_def)
    have "fs = butlast fs @ [n]" using fne by (simp add: n_def)
    then have "distinct (butlast fs @ [n])" "set fs = set (butlast fs @ [n])"
      using dfs by simp_all
    then show "distinct (n # butlast fs)" "set (n # butlast fs) = set (floated_windows (workspaces s ! a))"
      by (auto simp: fs_def cur)
  qed
  have lst: "list_last (Floated a) fs = Window n"
    using fne by (simp add: list_last_def list_last_link_def n_def)
  have run: "focus_next s = Inr (restack (emit [Focus (Some (Window n))] s1))"
    unfolding focus_next_def Let_def
    using ne
    by (simp only: ft fs_def [symmetric] a_def [symmetric] lst lma if_False seq_Inr
          velox_workspace_focus_type.case entry_link_def entry.case)
  show ?thesis
    unfolding run using wf1 s1
    by (simp add: restack_def fs_def n_def a_def cur)
qed

lemma focus_previous_float:
  assumes wf: "wf s" and ft: "focus_type (current s) = FLOAT"
    and ne: "\<not> list_is_trivial (floated_windows (current s))"
  shows "\<exists>s'. focus_previous s = Inr s' \<and> wf s' \<and> workspace s' = workspace s \<and>
           workspaces s' = (workspaces s)[workspace s := (current s)\<lparr>floated_windows :=
              tl (floated_windows (current s)) @ [hd (floated_windows (current s))]\<rparr>] \<and>
           trace s' = trace s @ [Focus (Some (Window (hd (floated_windows (current s)))))]"
proof -
  define a where "a = workspace s"
  define fs where "fs = floated_windows (current s)"
  define n where "n = hd fs"
  have a: "a < length (workspaces s)" unfolding a_def using wf by (rule wf_active)
  have d: "distinct (all_windows s)" using wf by (rule wf_distinct)
  have cur: "current s = workspaces s ! a" by (simp add: current_def workspace_at_def a_def)
  have fne: "fs \<noteq> []" using ne by (auto simp: list_is_trivial_def fs_def)
  then have fs: "fs = n # tl fs" by (simp add: n_def)
  have dfs: "distinct fs" using ws_distinct [OF d a] by (simp add: fs_def cur)
  have na: "n \<in> set (floated_windows (workspaces s ! a))"
    using fne by (simp add: n_def fs_def cur)
  have nin: "n \<in> set (all_windows s)"
    using in_all_windows [OF a, of n] na by (simp add: ws_windows_def)
  have "distinct (n # tl fs)" using dfs fs by simp
  then have "removeAll n (n # tl fs) = tl fs" by simp
  then have rem: "removeAll n fs = tl fs" using fs by simp
  define s1 where "s1 = update_at a (\<lambda>ws. ws\<lparr>floated_windows := floated_windows ws @ [n]\<rparr>) (list_del n s)"
  have lma: "link_move_before (Link n) (Head (Floated a)) s = Inr s1"
    unfolding s1_def using nin a by (rule link_move_before_head_floated)
  have s1: "workspaces s1 = (workspaces s)[a := (workspaces s ! a)\<lparr>floated_windows := tl fs @ [n]\<rparr>]"
    "workspace s1 = a" "trace s1 = trace s"
    using a rem unfolding s1_def list_del_floated [OF d a na]
    by (simp_all add: fs_def cur a_def)
  have wf1: "wf s1"
  proof (rule wf_floated_change [OF wf a s1(1)])
    show "workspace s1 = workspace s" by (simp add: s1 a_def)
    have "distinct (n # tl fs)" "set fs = set (n # tl fs)"
      using dfs fs by simp_all
    then show "distinct (tl fs @ [n])" "set (tl fs @ [n]) = set (floated_windows (workspaces s ! a))"
      by (auto simp: fs_def cur)
  qed
  have fst: "list_first (Floated a) fs = Window n"
    using fne by (cases fs) (simp_all add: list_first_def list_first_link_def n_def)
  have run: "focus_previous s = Inr (restack (emit [Focus (Some (Window n))] s1))"
    unfolding focus_previous_def Let_def
    using ne
    by (simp only: ft fs_def [symmetric] a_def [symmetric] fst lma if_False seq_Inr
          velox_workspace_focus_type.case entry_link_def entry.case)
  show ?thesis
    unfolding run using wf1 s1
    by (simp add: restack_def fs_def n_def a_def cur)
qed

lemma wf_set_focus_type: "wf s \<Longrightarrow> wf (set_focus_type ft s)"
  by (simp add: set_focus_type_def Let_def wf_update_focus_type)

section \<open>Reordering the tiled list\<close>

lemma swap_nodes_involution [simp]: "swap_nodes a b (swap_nodes a b x) = x"
  by (simp add: swap_nodes_def)

lemma inj_swap_nodes: "inj (swap_nodes a b)"
  by (rule inj_on_inverseI [where g = "swap_nodes a b"]) simp

lemma swap_nodes_simps [simp]: "swap_nodes a b a = b" "swap_nodes a b b = a"
  by (simp_all add: swap_nodes_def)

lemma map_swap_nodes_id: "a \<notin> set xs \<Longrightarrow> b \<notin> set xs \<Longrightarrow> map (swap_nodes a b) xs = xs"
  by (induction xs) (auto simp: swap_nodes_def)

lemma set_map_swap_nodes:
  assumes "a \<in> set xs" "b \<in> set xs"
  shows "set (map (swap_nodes a b) xs) = set xs"
proof -
  have "swap_nodes a b ` set xs \<subseteq> set xs"
    using assms by (auto simp: swap_nodes_def)
  moreover have "set xs \<subseteq> swap_nodes a b ` set xs"
  proof
    fix x assume "x \<in> set xs"
    then have "swap_nodes a b x \<in> set xs" using assms by (auto simp: swap_nodes_def)
    then have "swap_nodes a b (swap_nodes a b x) \<in> swap_nodes a b ` set xs" by (rule imageI)
    then show "x \<in> swap_nodes a b ` set xs" by simp
  qed
  ultimately show ?thesis by auto
qed

lemma distinct_map_swap_nodes: "distinct xs \<Longrightarrow> distinct (map (swap_nodes a b) xs)"
  by (simp add: distinct_map inj_on_subset [OF inj_swap_nodes])

lemma map_swap_nodes_twice: "map (swap_nodes a b) (map (swap_nodes a b) xs) = xs"
  by (simp add: comp_def)

lemma map_lists_swap_tiled:
  assumes d: "distinct (all_windows s)" and a: "a < length (workspaces s)"
    and w: "w \<in> set (tiled_windows (workspaces s ! a))"
    and v: "v \<in> set (tiled_windows (workspaces s ! a))"
  shows "map_lists (map (swap_nodes w v)) s =
           update_at a (\<lambda>ws. ws\<lparr>tiled_windows := map (swap_nodes w v) (tiled_windows ws)\<rparr>) s"
proof -
  let ?g = "\<lambda>ws. ws\<lparr>tiled_windows := map (swap_nodes w v) (tiled_windows ws),
                     floated_windows := map (swap_nodes w v) (floated_windows ws)\<rparr>"
  let ?A = "(workspaces s ! a)\<lparr>tiled_windows := map (swap_nodes w v) (tiled_windows (workspaces s ! a))\<rparr>"
  have "map ?g (workspaces s) = (workspaces s)[a := ?A]"
  proof (rule nth_equalityI)
    show "length (map ?g (workspaces s)) = length ((workspaces s)[a := ?A])"
      by simp
  next
    fix i assume "i < length (map ?g (workspaces s))"
    then have i: "i < length (workspaces s)" by simp
    show "map ?g (workspaces s) ! i = (workspaces s)[a := ?A] ! i"
    proof (cases "i = a")
      case True
      have "w \<notin> set (floated_windows (workspaces s ! a))" "v \<notin> set (floated_windows (workspaces s ! a))"
        using ws_distinct [OF d a] w v by auto
      then have "map (swap_nodes w v) (floated_windows (workspaces s ! a)) = floated_windows (workspaces s ! a)"
        by (rule map_swap_nodes_id)
      then show ?thesis using True a by simp
    next
      case False
      have "w \<in> set (ws_windows (workspaces s ! a))" "v \<in> set (ws_windows (workspaces s ! a))"
        using w v by (simp_all add: ws_windows_def)
      then have "w \<notin> set (ws_windows (workspaces s ! i))" "v \<notin> set (ws_windows (workspaces s ! i))"
        using ws_disjoint [OF d a i] False by blast+
      then have "map (swap_nodes w v) (tiled_windows (workspaces s ! i)) = tiled_windows (workspaces s ! i)"
        "map (swap_nodes w v) (floated_windows (workspaces s ! i)) = floated_windows (workspaces s ! i)"
        by (simp_all add: ws_windows_def map_swap_nodes_id)
      then show ?thesis using False i by simp
    qed
  qed
  then show ?thesis
    by (simp add: map_lists_def update_at_def)
qed

lemma wf_swap_tiled:
  assumes wf: "wf s" and w: "w \<in> set (tiled_windows (current s))"
    and v: "v \<in> set (tiled_windows (current s))"
    and k: "tiled_focus (current s) = Link w"
  shows "wf (update_at (workspace s)
              (\<lambda>ws. ws\<lparr>tiled_windows := map (swap_nodes w v) (tiled_windows ws)\<rparr>) s)"
proof -
  define a where "a = workspace s"
  define s' where "s' = update_at a (\<lambda>ws. ws\<lparr>tiled_windows := map (swap_nodes w v) (tiled_windows ws)\<rparr>) s"
  define A where "A = (workspaces s ! a)\<lparr>tiled_windows := map (swap_nodes w v) (tiled_windows (workspaces s ! a))\<rparr>"
  have a: "a < length (workspaces s)" unfolding a_def using wf by (rule wf_active)
  have d: "distinct (all_windows s)" using wf by (rule wf_distinct)
  have cur: "current s = workspaces s ! a" by (simp add: current_def workspace_at_def a_def)
  have s': "workspaces s' = (workspaces s)[a := A]" "workspace s' = workspace s"
    by (simp_all add: s'_def A_def)
  have set_eq: "set (map (swap_nodes w v) (tiled_windows (workspaces s ! a))) = set (tiled_windows (workspaces s ! a))"
    using w v by (intro set_map_swap_nodes) (simp_all add: cur)
  have "wf s'"
  proof (rule wf_replace [OF wf a s'])
    show "cursor_ok A"
      using k w set_eq by (simp add: cursor_ok_iff A_def cur)
    show "layout_ok A"
      using wf_nth [OF wf a] by (simp add: layout_ok_iff A_def)
    show "distinct (all_windows s')"
    proof (rule distinct_move_within [OF d a])
      show "map ws_windows (workspaces s') =
              (map ws_windows (workspaces s))[a := map (swap_nodes w v) (tiled_windows (workspaces s ! a)) @ floated_windows (workspaces s ! a)]"
        by (simp add: s' map_update ws_windows_def A_def)
      show "distinct (map (swap_nodes w v) (tiled_windows (workspaces s ! a)) @ floated_windows (workspaces s ! a))"
        using ws_distinct [OF d a] set_eq by (simp add: distinct_map_swap_nodes)
      show "set (map (swap_nodes w v) (tiled_windows (workspaces s ! a)) @ floated_windows (workspaces s ! a)) =
              set (ws_windows (workspaces s ! a))"
        using set_eq by (simp add: ws_windows_def)
    qed
  qed
  then show ?thesis by (simp add: s'_def a_def)
qed

lemma link_swap_tiled:
  assumes wf: "wf s" and w: "w \<in> set (tiled_windows (current s))"
    and v: "v \<in> set (tiled_windows (current s))"
  shows "link_swap (Link w) (Link v) s =
           Inr (update_at (workspace s)
                  (\<lambda>ws. ws\<lparr>tiled_windows := map (swap_nodes w v) (tiled_windows ws)\<rparr>) s)"
proof -
  have a: "workspace s < length (workspaces s)" using wf by (rule wf_active)
  have d: "distinct (all_windows s)" using wf by (rule wf_distinct)
  have cur: "current s = workspaces s ! workspace s" by (simp add: current_def workspace_at_def)
  have "w \<in> set (all_windows s)" "v \<in> set (all_windows s)"
    using in_all_windows [OF a] w v by (simp_all add: ws_windows_def cur)
  then show ?thesis
    using map_lists_swap_tiled [OF d a] w v by (simp add: link_swap_def cur)
qed

lemma move_next_tile:
  assumes wf: "wf s" and ft: "focus_type (current s) = TILE"
    and ne: "\<not> list_is_trivial (tiled_windows (current s))"
  shows "\<exists>w. tiled_focus (current s) = Link w \<and> w \<in> set (tiled_windows (current s)) \<and>
           move_next s =
             Inr (emit [Layout_arrange (layout (current s))
                          (map (swap_nodes w (successor w (tiled_windows (current s)))) (tiled_windows (current s)))
                          (state (current s))]
                   (update_at (workspace s)
                      (\<lambda>ws. ws\<lparr>tiled_windows :=
                          map (swap_nodes w (successor w (tiled_windows (current s)))) (tiled_windows ws)\<rparr>) s)) \<and>
           wf (update_at (workspace s)
                      (\<lambda>ws. ws\<lparr>tiled_windows :=
                          map (swap_nodes w (successor w (tiled_windows (current s)))) (tiled_windows ws)\<rparr>) s)"
proof -
  define xs where "xs = tiled_windows (current s)"
  have ne': "xs \<noteq> []"
    using ne by (auto simp: list_is_trivial_def xs_def)
  obtain w where w: "tiled_focus (current s) = Link w" "w \<in> set xs"
    using cursor_okD [OF _ ne' [unfolded xs_def]] wf_current [OF wf] unfolding xs_def by blast
  define v where "v = successor w xs"
  have v: "v \<in> set xs" unfolding v_def using ne' by (rule successor_in_set)
  define s1 where "s1 = update_at (workspace s) (\<lambda>ws. ws\<lparr>tiled_windows := map (swap_nodes w v) (tiled_windows ws)\<rparr>) s"
  have a: "workspace s < length (workspaces s)" using wf by (rule wf_active)
  have cur: "current s = workspaces s ! workspace s" by (simp add: current_def workspace_at_def)
  have swap: "link_swap (Link w) (Link v) s = Inr s1"
    unfolding s1_def using w(2) v by (intro link_swap_tiled [OF wf]) (simp_all add: xs_def)
  have wf1: "wf s1"
    unfolding s1_def using w v by (intro wf_swap_tiled [OF wf]) (simp_all add: xs_def)
  have cur1: "current s1 = (current s)\<lparr>tiled_windows := map (swap_nodes w v) xs\<rparr>"
    using a by (simp add: s1_def current_def workspace_at_def xs_def)
  have arr: "arrange s1 = Inr (emit [Layout_arrange (layout (current s)) (map (swap_nodes w v) xs) (state (current s))] s1)"
    using arrange_layout_ok [of s1] wf_current [OF wf1] ne' by (simp add: cur1)
  have "move_next s = Inr (emit [Layout_arrange (layout (current s)) (map (swap_nodes w v) xs) (state (current s))] s1)"
    using ft ne w(2)
    by (simp add: move_next_def Let_def w(1) xs_def [symmetric] list_next_link_member
          v_def [symmetric] entry_link_def swap arr)
  then show ?thesis
    using w wf1 unfolding s1_def v_def xs_def by blast
qed

lemma move_previous_tile:
  assumes wf: "wf s" and ft: "focus_type (current s) = TILE"
    and ne: "\<not> list_is_trivial (tiled_windows (current s))"
  shows "\<exists>w. tiled_focus (current s) = Link w \<and> w \<in> set (tiled_windows (current s)) \<and>
           move_previous s =
             Inr (emit [Layout_arrange (layout (current s))
                          (map (swap_nodes w (predecessor w (tiled_windows (current s)))) (tiled_windows (current s)))
                          (state (current s))]
                   (update_at (workspace s)
                      (\<lambda>ws. ws\<lparr>tiled_windows :=
                          map (swap_nodes w (predecessor w (tiled_windows (current s)))) (tiled_windows ws)\<rparr>) s)) \<and>
           wf (update_at (workspace s)
                      (\<lambda>ws. ws\<lparr>tiled_windows :=
                          map (swap_nodes w (predecessor w (tiled_windows (current s)))) (tiled_windows ws)\<rparr>) s)"
proof -
  define xs where "xs = tiled_windows (current s)"
  have ne': "xs \<noteq> []"
    using ne by (auto simp: list_is_trivial_def xs_def)
  obtain w where w: "tiled_focus (current s) = Link w" "w \<in> set xs"
    using cursor_okD [OF _ ne' [unfolded xs_def]] wf_current [OF wf] unfolding xs_def by blast
  define v where "v = predecessor w xs"
  have v: "v \<in> set xs" unfolding v_def using ne' by (rule predecessor_in_set)
  define s1 where "s1 = update_at (workspace s) (\<lambda>ws. ws\<lparr>tiled_windows := map (swap_nodes w v) (tiled_windows ws)\<rparr>) s"
  have a: "workspace s < length (workspaces s)" using wf by (rule wf_active)
  have cur: "current s = workspaces s ! workspace s" by (simp add: current_def workspace_at_def)
  have swap: "link_swap (Link w) (Link v) s = Inr s1"
    unfolding s1_def using w(2) v by (intro link_swap_tiled [OF wf]) (simp_all add: xs_def)
  have wf1: "wf s1"
    unfolding s1_def using w v by (intro wf_swap_tiled [OF wf]) (simp_all add: xs_def)
  have cur1: "current s1 = (current s)\<lparr>tiled_windows := map (swap_nodes w v) xs\<rparr>"
    using a by (simp add: s1_def current_def workspace_at_def xs_def)
  have arr: "arrange s1 = Inr (emit [Layout_arrange (layout (current s)) (map (swap_nodes w v) xs) (state (current s))] s1)"
    using arrange_layout_ok [of s1] wf_current [OF wf1] ne' by (simp add: cur1)
  have "move_previous s = Inr (emit [Layout_arrange (layout (current s)) (map (swap_nodes w v) xs) (state (current s))] s1)"
    using ft ne w(2)
    by (simp add: move_previous_def Let_def w(1) xs_def [symmetric] list_prev_link_member
          v_def [symmetric] entry_link_def swap arr)
  then show ?thesis
    using w wf1 unfolding s1_def v_def xs_def by blast
qed

lemma predecessor_after_swap:
  assumes d: "distinct xs" and w: "w \<in> set xs" and n: "2 \<le> length xs"
  shows "predecessor w (map (swap_nodes w (successor w xs)) xs) = successor w xs"
proof -
  define i where "i = index_of w xs"
  define m where "m = length xs"
  define j where "j = (i + 1) mod m"
  define v where "v = successor w xs"
  define ys where "ys = map (swap_nodes w v) xs"
  have i: "i < m" "xs ! i = w"
    using w by (simp_all add: i_def m_def index_of_less nth_index_of)
  have m: "0 < m" "2 \<le> m" using n unfolding m_def by linarith+
  have j: "j < m" unfolding j_def using m(1) by simp
  have v: "v = xs ! j" by (simp add: v_def successor_def j_def i_def m_def)
  have "ys ! j = w" using j by (simp add: ys_def m_def v)
  moreover have "distinct ys" unfolding ys_def using d by (rule distinct_map_swap_nodes)
  moreover have "j < length ys" using j by (simp add: ys_def m_def)
  ultimately have idx: "index_of w ys = j"
    using index_of_nth [of ys j] by simp
  have pred_idx: "(j + m - 1) mod m = i"
  proof (cases "i + 1 = m")
    case True
    then have "j = 0" by (simp add: j_def)
    then show ?thesis using True m by simp
  next
    case False
    then have "i + 1 < m" using i(1) by simp
    then have "j = i + 1" by (simp add: j_def)
    then show ?thesis using i(1) by simp
  qed
  have "length ys = m" by (simp add: ys_def m_def)
  then have "predecessor w ys = ys ! ((j + m - 1) mod m)"
    unfolding predecessor_def idx by simp
  also have "\<dots> = ys ! i" unfolding pred_idx ..
  also have "\<dots> = v" using i by (simp add: ys_def m_def)
  finally show ?thesis by (simp add: ys_def v_def)
qed

section \<open>Switching the workspace\<close>





lemma set_workspace_other:
  assumes wf: "wf s" and t: "unat index < length (workspaces s)"
    and neq: "unat index \<noteq> workspace s"
  shows "\<exists>s' f es. set_workspace index s = Inr s' \<and> wf s' \<and>
           workspaces s' = workspaces s \<and> workspace s' = unat index \<and>
           floating s' = floating s \<and> layout_of s' = layout_of s \<and>
           trace s' = trace s @
             map (\<lambda>w. Show_window (Window w)) (tiled_windows (workspaces s ! unat index)) @
             map (\<lambda>w. Show_window (Window w)) (floated_windows (workspaces s ! unat index)) @
             [Focus f] @
             map (\<lambda>w. Hide_window (Window w)) (tiled_windows (current s)) @
             map (\<lambda>w. Hide_window (Window w)) (floated_windows (current s)) @
             es @ [Run_hooks (Some (unat index)) VELOX_HOOK_WORKSPACE_CHANGED] \<and>
           (\<forall>e \<in> set es. \<exists>k ws b. e = Layout_arrange k ws b)"
proof -
  define u where "u = unat index"
  define s1 where "s1 = show_windows (tiled_windows (workspace_at u s)) s"
  define s2 where "s2 = show_windows (floated_windows (workspace_at u s)) s1"
  define s3 where "s3 = update_focus u s2"
  define s4 where "s4 = hide_windows (tiled_windows (current s3)) s3"
  define s5 where "s5 = hide_windows (floated_windows (current s4)) s4"
  define s6 where "s6 = s5\<lparr>workspace := u\<rparr>"
  have s3: "workspaces s3 = workspaces s" "workspace s3 = workspace s"
    by (simp_all add: s3_def s2_def s1_def show_windows_def update_focus_trace)
  then have cur3: "current s3 = current s"
    by (simp add: current_def workspace_at_def)
  have s4: "workspaces s4 = workspaces s" "workspace s4 = workspace s"
    by (simp_all add: s4_def hide_windows_def s3)
  then have cur4: "current s4 = current s"
    by (simp add: current_def workspace_at_def)
  obtain f where f: "trace s5 = trace s @
             map (\<lambda>w. Show_window (Window w)) (tiled_windows (workspaces s ! u)) @
             map (\<lambda>w. Show_window (Window w)) (floated_windows (workspaces s ! u)) @
             [Focus f] @
             map (\<lambda>w. Hide_window (Window w)) (tiled_windows (current s)) @
             map (\<lambda>w. Hide_window (Window w)) (floated_windows (current s))"
    by (simp add: s5_def s4_def s3_def s2_def s1_def cur3 cur4 hide_windows_def show_windows_def
          update_focus_trace workspace_at_def)
  have s5: "workspaces s5 = workspaces s" "workspace s5 = workspace s" "floating s5 = floating s"
    "layout_of s5 = layout_of s"
    by (simp_all add: s5_def s4_def s3_def s2_def s1_def hide_windows_def show_windows_def
          update_focus_trace)
  have s6: "workspaces s6 = workspaces s" "workspace s6 = u" "floating s6 = floating s"
    "layout_of s6 = layout_of s" "trace s6 = trace s5"
    by (simp_all add: s6_def s5)
  have "all_windows s6 = all_windows s" by (simp add: all_windows_def s6)
  then have wf6: "wf s6"
    using wf t by (simp add: wf_def s6 u_def)
  obtain es where es: "arrange s6 = Inr (emit es s6)" "\<forall>e \<in> set es. \<exists>k ws b. e = Layout_arrange k ws b"
    using arrange_layout_ok [of s6] wf_current [OF wf6] by auto
  define es' where "es' = (if focus_type (current s6) = TILE then es else [])"
  define s7 where "s7 = emit es' s6"
  have branch: "(if focus_type (current s6) = TILE then arrange s6 else Inr s6) = Inr s7"
    by (simp add: es(1) s7_def es'_def emit_def)
  define s' where "s' = emit [Run_hooks (Some (workspace s7)) VELOX_HOOK_WORKSPACE_CHANGED] s7"
  have neq': "(workspace s = u) = False" using neq by (auto simp: u_def)
  have run: "set_workspace index s = Inr s'"
    unfolding set_workspace_def Let_def
    using t
    by (simp only: u_def [symmetric] neq' s1_def [symmetric] s2_def [symmetric] s3_def [symmetric]
          s4_def [symmetric] s5_def [symmetric] s6_def [symmetric] branch s'_def [symmetric]
          if_False seq_Inr simp_thms)
  have s': "workspaces s' = workspaces s" "workspace s' = u" "floating s' = floating s"
    "layout_of s' = layout_of s"
    "trace s' = trace s5 @ es' @ [Run_hooks (Some u) VELOX_HOOK_WORKSPACE_CHANGED]"
    by (simp_all add: s'_def s7_def s6)
  have wf': "wf s'" using wf6 by (simp add: s'_def s7_def)
  have es': "\<forall>e \<in> set es'. \<exists>k ws b. e = Layout_arrange k ws b"
    using es(2) by (simp add: es'_def)
  show ?thesis
    using run wf' s' es' unfolding f u_def
    by (intro exI [of _ s'] exI [of _ f] exI [of _ es']) simp
qed








section \<open>Every command preserves well-formedness\<close>

lemma wf_focus_inv: "wf s \<Longrightarrow> focus_inv s"
  by (auto simp: wf_def focus_inv_def list_all_iff cursor_ok_iff)

lemma set_workspace_wf:
  assumes wf: "wf s" and t: "unat index < length (workspaces s)"
  shows "\<exists>s'. set_workspace index s = Inr s' \<and> wf s' \<and>
           length (workspaces s') = length (workspaces s)"
proof (cases "unat index = workspace s")
  case True
  then show ?thesis using wf t by (simp add: set_workspace_def)
next
  case False
  from set_workspace_other [OF wf t False]
  obtain s' where "set_workspace index s = Inr s'" "wf s'" "workspaces s' = workspaces s"
    by blast
  then show ?thesis by simp
qed

lemma move_focus_to_workspace_wf:
  assumes wf: "wf s" and t: "unat index < length (workspaces s)"
  shows "\<exists>s'. move_focus_to_workspace index s = Inr s' \<and> wf s' \<and>
           length (workspaces s') = length (workspaces s)"
proof (cases "focus_type (current s)")
  case FLOAT
  then show ?thesis using move_focus_float_wf [OF wf _ t] by simp
next
  case TILE
  show ?thesis
  proof (cases "tiled_windows (current s) = []")
    case True
    then show ?thesis
      using wf TILE by (simp add: move_focus_to_workspace_def list_is_empty_def)
  next
    case False
    show ?thesis
    proof (cases "unat index = workspace s")
      case True
      from move_focus_tiled_same [OF wf TILE False True]
      obtain w s' where "move_focus_to_workspace index s = Inr s'" "wf s'"
        "workspaces s' = (workspaces s)[workspace s :=
             (current s)\<lparr>tiled_windows := w # removeAll w (tiled_windows (current s)),
                          tiled_focus := Link (successor w (tiled_windows (current s)))\<rparr>]"
        by blast
      then show ?thesis by simp
    next
      case neq: False
      from move_focus_tiled_other [OF wf TILE False t neq]
      obtain s' where "move_focus_to_workspace index s = Inr s'" "wf s'"
        "length (workspaces s') = length (workspaces s)"
        by blast
      then show ?thesis by simp
    qed
  qed
qed

lemma focus_next_wf:
  assumes wf: "wf s"
  shows "\<exists>s'. focus_next s = Inr s' \<and> wf s' \<and> length (workspaces s') = length (workspaces s)"
proof (cases "focus_type (current s)")
  case TILE
  show ?thesis
  proof (cases "list_is_trivial (tiled_windows (current s))")
    case True
    then show ?thesis using wf TILE by (simp add: focus_next_def)
  next
    case False
    then have ne: "tiled_windows (current s) \<noteq> []" by (auto simp: list_is_trivial_def)
    from focus_next_tile [OF wf TILE False]
    obtain w where w: "focus_next s =
             Inr (emit [Focus (Some (Window (successor w (tiled_windows (current s)))))]
                   (update_at (workspace s)
                      (\<lambda>ws. ws\<lparr>tiled_focus := Link (successor w (tiled_windows (current s)))\<rparr>) s))"
      by blast
    show ?thesis
      unfolding w using wf_update_tiled_focus [OF wf successor_in_set [OF ne]] by simp
  qed
next
  case FLOAT
  show ?thesis
  proof (cases "list_is_trivial (floated_windows (current s))")
    case True
    then show ?thesis using wf FLOAT by (simp add: focus_next_def)
  next
    case False
    from focus_next_float [OF wf FLOAT False]
    obtain s' where "focus_next s = Inr s'" "wf s'"
      "workspaces s' = (workspaces s)[workspace s := (current s)\<lparr>floated_windows :=
              last (floated_windows (current s)) # butlast (floated_windows (current s))\<rparr>]"
      by blast
    then show ?thesis by simp
  qed
qed

lemma focus_previous_wf:
  assumes wf: "wf s"
  shows "\<exists>s'. focus_previous s = Inr s' \<and> wf s' \<and> length (workspaces s') = length (workspaces s)"
proof (cases "focus_type (current s)")
  case TILE
  show ?thesis
  proof (cases "list_is_trivial (tiled_windows (current s))")
    case True
    then show ?thesis using wf TILE by (simp add: focus_previous_def)
  next
    case False
    then have ne: "tiled_windows (current s) \<noteq> []" by (auto simp: list_is_trivial_def)
    from focus_previous_tile [OF wf TILE False]
    obtain w where w: "focus_previous s =
             Inr (emit [Focus (Some (Window (predecessor w (tiled_windows (current s)))))]
                   (update_at (workspace s)
                      (\<lambda>ws. ws\<lparr>tiled_focus := Link (predecessor w (tiled_windows (current s)))\<rparr>) s))"
      by blast
    show ?thesis
      unfolding w using wf_update_tiled_focus [OF wf predecessor_in_set [OF ne]] by simp
  qed
next
  case FLOAT
  show ?thesis
  proof (cases "list_is_trivial (floated_windows (current s))")
    case True
    then show ?thesis using wf FLOAT by (simp add: focus_previous_def)
  next
    case False
    from focus_previous_float [OF wf FLOAT False]
    obtain s' where "focus_previous s = Inr s'" "wf s'"
      "workspaces s' = (workspaces s)[workspace s := (current s)\<lparr>floated_windows :=
              tl (floated_windows (current s)) @ [hd (floated_windows (current s))]\<rparr>]"
      by blast
    then show ?thesis by simp
  qed
qed

lemma move_next_wf:
  assumes wf: "wf s"
  shows "\<exists>s'. move_next s = Inr s' \<and> wf s' \<and> length (workspaces s') = length (workspaces s)"
proof (cases "focus_type (current s)")
  case FLOAT
  then show ?thesis using wf by (simp add: move_next_def)
next
  case TILE
  show ?thesis
  proof (cases "list_is_trivial (tiled_windows (current s))")
    case True
    then show ?thesis using wf TILE by (simp add: move_next_def)
  next
    case False
    from move_next_tile [OF wf TILE False]
    obtain w where w: "move_next s =
             Inr (emit [Layout_arrange (layout (current s))
                          (map (swap_nodes w (successor w (tiled_windows (current s)))) (tiled_windows (current s)))
                          (state (current s))]
                   (update_at (workspace s)
                      (\<lambda>ws. ws\<lparr>tiled_windows :=
                          map (swap_nodes w (successor w (tiled_windows (current s)))) (tiled_windows ws)\<rparr>) s))"
      "wf (update_at (workspace s)
                      (\<lambda>ws. ws\<lparr>tiled_windows :=
                          map (swap_nodes w (successor w (tiled_windows (current s)))) (tiled_windows ws)\<rparr>) s)"
      by blast
    show ?thesis
      unfolding w(1) using w(2) by simp
  qed
qed

lemma move_previous_wf:
  assumes wf: "wf s"
  shows "\<exists>s'. move_previous s = Inr s' \<and> wf s' \<and> length (workspaces s') = length (workspaces s)"
proof (cases "focus_type (current s)")
  case FLOAT
  then show ?thesis using wf by (simp add: move_previous_def)
next
  case TILE
  show ?thesis
  proof (cases "list_is_trivial (tiled_windows (current s))")
    case True
    then show ?thesis using wf TILE by (simp add: move_previous_def)
  next
    case False
    from move_previous_tile [OF wf TILE False]
    obtain w where w: "move_previous s =
             Inr (emit [Layout_arrange (layout (current s))
                          (map (swap_nodes w (predecessor w (tiled_windows (current s)))) (tiled_windows (current s)))
                          (state (current s))]
                   (update_at (workspace s)
                      (\<lambda>ws. ws\<lparr>tiled_windows :=
                          map (swap_nodes w (predecessor w (tiled_windows (current s)))) (tiled_windows ws)\<rparr>) s))"
      "wf (update_at (workspace s)
                      (\<lambda>ws. ws\<lparr>tiled_windows :=
                          map (swap_nodes w (predecessor w (tiled_windows (current s)))) (tiled_windows ws)\<rparr>) s)"
      by blast
    show ?thesis
      unfolding w(1) using w(2) by simp
  qed
qed

lemma toggle_floating_wf:
  assumes wf: "wf s"
  shows "\<exists>s'. toggle_floating s = Inr s' \<and> wf s' \<and> length (workspaces s') = length (workspaces s)"
proof (cases "focus_type (current s)")
  case TILE
  show ?thesis
  proof (cases "tiled_windows (current s) = []")
    case True
    then show ?thesis using wf TILE by (simp add: toggle_floating_def list_is_empty_def)
  next
    case False
    from toggle_floating_tile [OF wf TILE False]
    obtain w s' where "toggle_floating s = Inr s'" "wf s'"
      "workspaces s' = (workspaces s)[workspace s :=
             (current s)\<lparr>tiled_focus := Link (successor w (tiled_windows (current s))),
                          tiled_windows := removeAll w (tiled_windows (current s)),
                          floated_windows := w # floated_windows (current s),
                          focus_type := FLOAT\<rparr>]"
      by blast
    then show ?thesis by simp
  qed
next
  case FLOAT
  show ?thesis
  proof (cases "floated_windows (current s)")
    case Nil
    then show ?thesis using wf FLOAT by (simp add: toggle_floating_def list_is_empty_def)
  next
    case (Cons n fs)
    from toggle_floating_float [OF wf FLOAT Cons]
    obtain s' where "toggle_floating s = Inr s'" "wf s'"
      "workspaces s' = (workspaces s)[workspace s :=
             (current s)\<lparr>floated_windows := fs,
                          tiled_windows := n # tiled_windows (current s),
                          tiled_focus := Link n,
                          focus_type := TILE\<rparr>]"
      by blast
    then show ?thesis by simp
  qed
qed

lemma run_wf:
  assumes "wf s" "index_valid (length (workspaces s)) c"
  shows "\<exists>s'. run c s = Inr s' \<and> wf s' \<and> length (workspaces s') = length (workspaces s)"
proof (cases c)
  case (Set_workspace i)
  then show ?thesis using assms set_workspace_wf by simp
next
  case (Move_focus_to_workspace i)
  then show ?thesis using assms move_focus_to_workspace_wf by simp
next
  case (Set_focus_type ft)
  then show ?thesis
    using assms(1) wf_set_focus_type [of s ft] by (simp add: set_focus_type_def Let_def)
next
  case Focus_next
  then show ?thesis using assms focus_next_wf by simp
next
  case Focus_previous
  then show ?thesis using assms focus_previous_wf by simp
next
  case Move_next
  then show ?thesis using assms move_next_wf by simp
next
  case Move_previous
  then show ?thesis using assms move_previous_wf by simp
next
  case Toggle_floating
  then show ?thesis using assms toggle_floating_wf by simp
qed

lemma run_all_wf:
  assumes "wf s" "list_all (index_valid (length (workspaces s))) cs"
  shows "\<exists>s'. run_all cs s = Inr s' \<and> wf s'"
  using assms
proof (induction cs arbitrary: s)
  case Nil
  then show ?case by simp
next
  case (Cons c cs)
  then obtain s1 where s1: "run c s = Inr s1" "wf s1" "length (workspaces s1) = length (workspaces s)"
    using run_wf [of s c] by auto
  then have "list_all (index_valid (length (workspaces s1))) cs"
    using Cons.prems(2) by simp
  from Cons.IH [OF s1(2) this] s1(1) show ?case by simp
qed

section \<open>Evaluation on the example states\<close>

lemmas example_defs =
  three_tiled_def three_tiled_shown_def one_tiled_def two_floating_def float_without_windows_def
  mk_velox_def mk_workspace_def example_layouts_def

lemmas wf_defs = wf_def all_windows_def ws_windows_def cursor_ok_def layout_ok_def

lemmas handler_defs =
  current_def workspace_at_def update_at_def emit_def Let_def restack_def
  list_is_empty_def list_is_singular_def list_is_trivial_def
  list_first_def list_first_link_def list_last_def list_last_link_def entry_link_def
  list_next_link_def list_prev_link_def successor_def predecessor_def
  link_move_after_def link_move_before_def link_swap_def list_del_def map_lists_def
  insert_after_def insert_before_def swap_nodes_def set_floating_def
  all_windows_def ws_windows_def arrange_def update_focus_def

lemma wf_three_tiled: "wf three_tiled"
  by (simp add: wf_defs example_defs)


lemma wf_one_tiled: "wf one_tiled"
  by (simp add: wf_defs example_defs)

lemma wf_two_floating: "wf two_floating"
  by (simp add: wf_defs example_defs)

section \<open>The claims\<close>

subsection \<open>C1: the tiled focus cursor stays inside the tiled list\<close>

text \<open>
  Claim C1. Started in a well-formed state, every sequence of the commands
  \<^verbatim>\<open>set_workspace\<close>, \<^verbatim>\<open>move_focus_to_workspace\<close>, \<^verbatim>\<open>set_focus_type\<close>,
  \<^verbatim>\<open>focus_next\<close>, \<^verbatim>\<open>focus_previous\<close>, \<^verbatim>\<open>move_next\<close>, \<^verbatim>\<open>move_previous\<close> and
  \<^verbatim>\<open>toggle_floating\<close> (the indexed ones with an index of the registry) runs without
  error, and in the state it ends in (hence after every command on the way) every
  workspace in mode \<open>TILE\<close> with a non-empty tiled list has as tiled focus cursor the
  link of a member of that list.
\<close>

theorem focus_cursor_invariant:
  assumes "wf s" and "list_all (index_valid (length (workspaces s))) cs"
  shows "\<exists>s'. run_all cs s = Inr s' \<and> wf s' \<and> focus_inv s'"
proof -
  obtain s' where "run_all cs s = Inr s'" "wf s'"
    using run_all_wf [OF assms] by blast
  then show ?thesis using wf_focus_inv by blast
qed

theorem focus_cursor_invariant_witness:
  "wf three_tiled \<and>
   list_all (index_valid (length (workspaces three_tiled)))
     [Toggle_floating, Move_focus_to_workspace 1, Focus_next, Toggle_floating, Set_workspace 1] \<and>
   (\<exists>s'. run_all [Toggle_floating, Move_focus_to_workspace 1, Focus_next, Toggle_floating,
                   Set_workspace 1] three_tiled = Inr s' \<and> wf s' \<and> focus_inv s')"
proof -
  have v: "list_all (index_valid (length (workspaces three_tiled)))
     [Toggle_floating, Move_focus_to_workspace 1, Focus_next, Toggle_floating, Set_workspace 1]"
    by (simp add: example_defs)
  show ?thesis
    using wf_three_tiled v focus_cursor_invariant [OF wf_three_tiled v] by blast
qed

subsection \<open>C2: moving the focused tiled window to another workspace\<close>

text \<open>
  Claim C2, as stated, fails where the source has a single tiled window and no floated
  one: the claim sets the source's cursor to the successor computed before the move
  (by wrap-around the moved window itself), the code sets it to the sentinel of the
  emptied list.
\<close>

theorem move_focus_emptied_source_counterexample:
  "focus_type (current one_tiled) = TILE \<and>
   list_next_link (Tiled 0) (tiled_windows (current one_tiled)) (tiled_focus (current one_tiled)) =
     Inr (Link 1) \<and>
   \<not> isl (move_focus_to_workspace 1 one_tiled) \<and>
   tiled_windows (workspaces (projr (move_focus_to_workspace 1 one_tiled)) ! 0) = [] \<and>
   floated_windows (workspaces (projr (move_focus_to_workspace 1 one_tiled)) ! 0) = [] \<and>
   focus_type (workspaces (projr (move_focus_to_workspace 1 one_tiled)) ! 0) = TILE \<and>
   tiled_focus (workspaces (projr (move_focus_to_workspace 1 one_tiled)) ! 0) = Head (Tiled 0) \<and>
   tiled_focus (workspaces (projr (move_focus_to_workspace 1 one_tiled)) ! 0) \<noteq> Link 1"
  by (simp add: move_focus_to_workspace_def example_defs handler_defs index_of.simps)


text \<open>
  Claim C2, amended. \<^verbatim>\<open>move_focus_to_workspace\<close> in tiled mode with a non-empty source
  tiled list and an index of the registry: the focused window \<open>w\<close> becomes the first
  element of the target's tiled list and, for another target, leaves the source's list;
  if the target's tiled list was empty, the target's cursor is the link of \<open>w\<close>; if the
  source's tiled list has become empty, the source's cursor is the sentinel of that list
  and, with a non-empty floated list, the source's mode is \<open>FLOAT\<close>; if the source's
  tiled list is still non-empty, the source's cursor is the successor of \<open>w\<close> computed
  before the move; if the target's floated list is empty, the target's mode is \<open>TILE\<close>.
\<close>

theorem move_focus_tiled_effect:
  assumes wf: "wf s" and ft: "focus_type (current s) = TILE"
    and ne: "tiled_windows (current s) \<noteq> []"
    and t: "unat index < length (workspaces s)"
  shows "\<exists>w s'. tiled_focus (current s) = Link w \<and> w \<in> set (tiled_windows (current s)) \<and>
           move_focus_to_workspace index s = Inr s' \<and>
           tiled_windows (workspaces s' ! unat index) =
             w # removeAll w (tiled_windows (workspaces s ! unat index)) \<and>
           (unat index \<noteq> workspace s \<longrightarrow>
              tiled_windows (workspaces s' ! workspace s) = removeAll w (tiled_windows (current s))) \<and>
           (tiled_windows (workspaces s ! unat index) = [] \<longrightarrow>
              tiled_focus (workspaces s' ! unat index) = Link w) \<and>
           (tiled_windows (workspaces s' ! workspace s) = [] \<longrightarrow>
              tiled_focus (workspaces s' ! workspace s) = Head (Tiled (workspace s)) \<and>
              (floated_windows (current s) \<noteq> [] \<longrightarrow> focus_type (workspaces s' ! workspace s) = FLOAT)) \<and>
           (tiled_windows (workspaces s' ! workspace s) \<noteq> [] \<longrightarrow>
              tiled_focus (workspaces s' ! workspace s) = Link (successor w (tiled_windows (current s)))) \<and>
           (floated_windows (workspaces s ! unat index) = [] \<longrightarrow>
              focus_type (workspaces s' ! unat index) = TILE)"
proof (cases "unat index = workspace s")
  case True
  have a: "workspace s < length (workspaces s)" using wf by (rule wf_active)
  have cur: "current s = workspaces s ! workspace s" by (simp add: current_def workspace_at_def)
  from move_focus_tiled_same [OF wf ft ne True]
  obtain w s' where s': "tiled_focus (current s) = Link w" "w \<in> set (tiled_windows (current s))"
      "move_focus_to_workspace index s = Inr s'"
      "workspaces s' = (workspaces s)[workspace s :=
             (current s)\<lparr>tiled_windows := w # removeAll w (tiled_windows (current s)),
                          tiled_focus := Link (successor w (tiled_windows (current s)))\<rparr>]"
    by blast
  have "workspaces s' ! workspace s =
          (current s)\<lparr>tiled_windows := w # removeAll w (tiled_windows (current s)),
                       tiled_focus := Link (successor w (tiled_windows (current s)))\<rparr>"
    using a by (simp add: s'(4))
  then show ?thesis
    using s'(1,2,3) True ft ne
    by (intro exI [of _ w] exI [of _ s']) (simp add: cur)
next
  case False
  have a: "workspace s < length (workspaces s)" using wf by (rule wf_active)
  have d: "distinct (all_windows s)" using wf by (rule wf_distinct)
  have cur: "current s = workspaces s ! workspace s" by (simp add: current_def workspace_at_def)
  from move_focus_tiled_other [OF wf ft ne t False]
  obtain w s' where s': "tiled_focus (current s) = Link w" "w \<in> set (tiled_windows (current s))"
      "move_focus_to_workspace index s = Inr s'"
      "workspaces s' ! workspace s =
             (current s)\<lparr>tiled_windows := removeAll w (tiled_windows (current s)),
                focus_type := (if removeAll w (tiled_windows (current s)) = [] \<and> floated_windows (current s) \<noteq> []
                               then FLOAT else TILE),
                tiled_focus := (if removeAll w (tiled_windows (current s)) = [] then Head (Tiled (workspace s))
                                else Link (successor w (tiled_windows (current s))))\<rparr>"
      "workspaces s' ! unat index =
             (workspaces s ! unat index)\<lparr>tiled_windows := w # tiled_windows (workspaces s ! unat index),
                tiled_focus := (if tiled_windows (workspaces s ! unat index) = [] then Link w
                                else tiled_focus (workspaces s ! unat index)),
                focus_type := (if floated_windows (workspaces s ! unat index) = [] then TILE
                               else focus_type (workspaces s ! unat index))\<rparr>"
    by blast
  have "w \<in> set (ws_windows (workspaces s ! workspace s))"
    using s'(2) by (simp add: ws_windows_def cur)
  then have "w \<notin> set (ws_windows (workspaces s ! unat index))"
    using ws_disjoint [OF d a t, of w] False by auto
  then have "removeAll w (tiled_windows (workspaces s ! unat index)) = tiled_windows (workspaces s ! unat index)"
    by (simp add: ws_windows_def)
  then show ?thesis
    using s'(1,2,3) False
    by (intro exI [of _ w] exI [of _ s']) (simp add: s'(4,5))
qed

theorem move_focus_tiled_effect_witness:
  "wf one_tiled \<and> focus_type (current one_tiled) = TILE \<and>
   tiled_windows (current one_tiled) \<noteq> [] \<and> unat (1 :: 8 word) < length (workspaces one_tiled) \<and>
   (\<exists>s'. move_focus_to_workspace 1 one_tiled = Inr s' \<and>
         tiled_windows (workspaces s' ! 1) = [1] \<and> tiled_focus (workspaces s' ! 1) = Link 1 \<and>
         tiled_windows (workspaces s' ! 0) = [] \<and> tiled_focus (workspaces s' ! 0) = Head (Tiled 0) \<and>
         focus_type (workspaces s' ! 1) = TILE)"
proof -
  have h: "focus_type (current one_tiled) = TILE" "tiled_windows (current one_tiled) \<noteq> []"
    "unat (1 :: 8 word) < length (workspaces one_tiled)"
    by (simp_all add: example_defs current_def workspace_at_def)
  have c: "tiled_focus (current one_tiled) = Link 1" "tiled_windows (current one_tiled) = [1]"
    "workspace one_tiled = 0" "tiled_windows (workspaces one_tiled ! Suc 0) = []"
    "floated_windows (workspaces one_tiled ! Suc 0) = []"
    by (simp_all add: example_defs current_def workspace_at_def)
  show ?thesis
    using wf_one_tiled h move_focus_tiled_effect [OF wf_one_tiled h]
    by (auto simp: c)
qed

subsection \<open>C3: what update\_focus hands to the protocol\<close>

text \<open>
  Claim C3. \<^verbatim>\<open>update_focus(workspace)\<close> makes exactly one call of \<^verbatim>\<open>focus\<close>. In mode
  \<open>TILE\<close> its argument is the window at the tiled focus cursor, or no window when the
  tiled list is empty; in mode \<open>FLOAT\<close> it is the first window of the floated list, or no
  window when the floated list is empty. The handler has no failing path: on a workspace
  in mode \<open>FLOAT\<close> without floated windows, or in mode \<open>TILE\<close> without tiled windows,
  it clears the focus.
\<close>

theorem update_focus_sets_focus:
  assumes "i < length (workspaces s)"
  shows "update_focus i s =
           emit [Focus (case focus_type (workspaces s ! i) of
                          TILE \<Rightarrow> (if tiled_windows (workspaces s ! i) = [] then None
                                   else Some (link_entry (tiled_focus (workspaces s ! i))))
                        | FLOAT \<Rightarrow> (if floated_windows (workspaces s ! i) = [] then None
                                    else Some (Window (hd (floated_windows (workspaces s ! i))))))] s"
  by (simp only: update_focus_trace workspace_at_def)

theorem update_focus_sets_focus_witness:
  "0 < length (workspaces float_without_windows) \<and>
   update_focus 0 float_without_windows = emit [Focus None] float_without_windows \<and>
   update_focus 0 three_tiled = emit [Focus (Some (Window 2))] three_tiled"
  using update_focus_sets_focus [of 0 float_without_windows]
    update_focus_sets_focus [of 0 three_tiled]
  by (simp add: float_without_windows_def three_tiled_def mk_velox_def mk_workspace_def)

subsection \<open>C4: set\_layout\<close>

text \<open>
  Claim C4. For a workspace and a layout entry \<open>e\<close> of its layouts list, after
  \<^verbatim>\<open>set_layout\<close> on the link of \<open>e\<close> the layout cursor is that link and the state of the
  workspace holds the default state of the entry's layout, whatever it held before: the
  \<^verbatim>\<open>default_state_size\<close> bytes that the default state consists of are all overwritten
  (the buffer of the workspace may be longer; the rest of it is no part of the layout's
  state and stays as it was). Then \<^verbatim>\<open>arrange\<close> runs: with tiled windows present, the
  layout behind the new cursor is called on the tiled list and the new state.
\<close>

theorem set_layout_resets_state:
  assumes a: "workspace s < length (workspaces s)"
    and e: "e \<in> set (layouts (current s))"
    and size: "default_state_size (layout_of s e) = length (default_state (layout_of s e))"
    and fits: "default_state_size (layout_of s e) \<le> length (state (current s))"
  shows "\<exists>s'. set_layout (Link e) s = Inr s' \<and>
           layout (current s') = Link e \<and>
           take (default_state_size (layout_of s e)) (state (current s')) = default_state (layout_of s e) \<and>
           drop (default_state_size (layout_of s e)) (state (current s')) =
             drop (default_state_size (layout_of s e)) (state (current s)) \<and>
           tiled_windows (current s') = tiled_windows (current s) \<and>
           trace s' = trace s @
             (if tiled_windows (current s) = [] then []
              else [Layout_arrange (Link e) (tiled_windows (current s)) (state (current s'))])"
proof -
  define n where "n = default_state_size (layout_of s e)"
  define d where "d = default_state (layout_of s e)"
  define buf where "buf = take n d @ drop n (state (current s))"
  define s1 where "s1 = update_at (workspace s) (\<lambda>w. w\<lparr>layout := Link e\<rparr>) s"
  define s2 where "s2 = update_at (workspace s) (\<lambda>w. w\<lparr>state := buf\<rparr>) s1"
  have n: "n = length d" "n \<le> length (state (current s))"
    using size fits by (simp_all add: n_def d_def)
  have cur1: "current s1 = (current s)\<lparr>layout := Link e\<rparr>"
    using a by (simp add: s1_def current_def workspace_at_def)
  have "memcpy (state (current s1)) d n = Inr buf"
    using n by (simp add: memcpy_ok cur1 buf_def)
  moreover have "layout_of s1 = layout_of s" "workspace s1 = workspace s"
    by (simp_all add: s1_def)
  ultimately have step: "set_layout (Link e) s = arrange s2"
    by (simp add: set_layout_def Let_def s1_def [symmetric] s2_def n_def d_def)
  have cur2: "current s2 = (current s)\<lparr>layout := Link e, state := buf\<rparr>"
    using a by (simp add: s2_def s1_def current_def workspace_at_def)
  have tr2: "trace s2 = trace s"
    by (simp add: s2_def s1_def)
  have ok: "layout_ok (current s2)"
    using e by (auto simp: cur2 layout_ok_def)
  have buf: "take n buf = d" "drop n buf = drop n (state (current s))"
    using n by (simp_all add: buf_def)
  show ?thesis
    unfolding step arrange_layout_ok [OF ok] n_def [symmetric] d_def [symmetric]
    by (simp add: cur2 tr2 buf)
qed

theorem set_layout_resets_state_witness:
  "workspace three_tiled < length (workspaces three_tiled) \<and>
   100 \<in> set (layouts (current three_tiled)) \<and>
   default_state_size (layout_of three_tiled 100) = length (default_state (layout_of three_tiled 100)) \<and>
   default_state_size (layout_of three_tiled 100) \<le> length (state (current three_tiled)) \<and>
   (\<exists>s'. set_layout (Link 100) three_tiled = Inr s' \<and>
         layout (current s') = Link 100 \<and>
         take 2 (state (current s')) = [0, 0] \<and>
         trace s' = [Layout_arrange (Link 100) [1, 2, 3] (state (current s'))])"
  using set_layout_resets_state [of three_tiled 100]
  by (simp add: three_tiled_def mk_velox_def mk_workspace_def example_layouts_def
        current_def workspace_at_def) blast

subsection \<open>C5: toggling the floating flag twice\<close>

text \<open>
  Claim C5, as stated, fails on the position: with the tiled windows 1, 2, 3 and the
  focus on 2, the first toggle leaves the cursor on 3, and the second puts 2 at the front
  of the tiled list, not behind 3.
\<close>

theorem toggle_twice_position_counterexample:
  "focus_type (current three_tiled) = TILE \<and>
   tiled_focus (current three_tiled) = Link 2 \<and>
   \<not> isl (toggle_floating three_tiled) \<and>
   tiled_focus (current (projr (toggle_floating three_tiled))) = Link 3 \<and>
   \<not> isl (toggle_floating (projr (toggle_floating three_tiled))) \<and>
   tiled_windows (current (projr (toggle_floating (projr (toggle_floating three_tiled))))) = [2, 1, 3] \<and>
   \<not> immediately_after 3 2
       (tiled_windows (current (projr (toggle_floating (projr (toggle_floating three_tiled))))))"
  by (simp add: toggle_floating_def example_defs handler_defs index_of.simps)

text \<open>
  Claim C5, amended. For a workspace in tiled mode whose tiled list is non-empty, with
  the focus on \<open>w\<close>: after \<^verbatim>\<open>toggle_floating\<close> twice the floating flag of \<open>w\<close> is clear,
  \<open>w\<close> is a tiled window of the workspace again, at the front of the tiled list (the
  other tiled windows keep their order behind it), the tiled focus cursor is the link of
  \<open>w\<close>, the mode is \<open>TILE\<close> and the floated list is as it was.
\<close>

theorem toggle_floating_twice:
  assumes wf: "wf s" and ft: "focus_type (current s) = TILE"
    and ne: "tiled_windows (current s) \<noteq> []"
  shows "\<exists>w s1 s2. tiled_focus (current s) = Link w \<and> w \<in> set (tiled_windows (current s)) \<and>
           toggle_floating s = Inr s1 \<and> w \<in> floating s1 \<and>
           toggle_floating s1 = Inr s2 \<and> w \<notin> floating s2 \<and>
           tiled_windows (current s2) = w # removeAll w (tiled_windows (current s)) \<and>
           tiled_focus (current s2) = Link w \<and>
           focus_type (current s2) = TILE \<and>
           floated_windows (current s2) = floated_windows (current s)"
proof -
  have a: "workspace s < length (workspaces s)" using wf by (rule wf_active)
  from toggle_floating_tile [OF wf ft ne]
  obtain w s1 where s1: "tiled_focus (current s) = Link w" "w \<in> set (tiled_windows (current s))"
      "toggle_floating s = Inr s1" "wf s1" "workspace s1 = workspace s"
      "floating s1 = insert w (floating s)"
      "workspaces s1 = (workspaces s)[workspace s :=
             (current s)\<lparr>tiled_focus := Link (successor w (tiled_windows (current s))),
                          tiled_windows := removeAll w (tiled_windows (current s)),
                          floated_windows := w # floated_windows (current s),
                          focus_type := FLOAT\<rparr>]"
    by blast
  have cur1: "current s1 = (current s)\<lparr>tiled_focus := Link (successor w (tiled_windows (current s))),
                          tiled_windows := removeAll w (tiled_windows (current s)),
                          floated_windows := w # floated_windows (current s),
                          focus_type := FLOAT\<rparr>"
    using a by (simp add: current_def workspace_at_def s1(5,7))
  have ft1: "focus_type (current s1) = FLOAT"
    and fl1: "floated_windows (current s1) = w # floated_windows (current s)"
    by (simp_all add: cur1)
  from toggle_floating_float [OF s1(4) ft1 fl1]
  obtain s2 where s2: "toggle_floating s1 = Inr s2" "workspace s2 = workspace s1"
      "floating s2 = floating s1 - {w}"
      "workspaces s2 = (workspaces s1)[workspace s1 :=
             (current s1)\<lparr>floated_windows := floated_windows (current s),
                          tiled_windows := w # tiled_windows (current s1),
                          tiled_focus := Link w,
                          focus_type := TILE\<rparr>]"
    by blast
  have a1: "workspace s1 < length (workspaces s1)" using s1(4) by (rule wf_active)
  have cur2: "current s2 = (current s1)\<lparr>floated_windows := floated_windows (current s),
                          tiled_windows := w # tiled_windows (current s1),
                          tiled_focus := Link w,
                          focus_type := TILE\<rparr>"
    using a1 by (simp add: current_def workspace_at_def s2(2,4))
  show ?thesis
    using s1(1,2,3) s2(1)
    by (intro exI [of _ w] exI [of _ s1] exI [of _ s2]) (simp add: s1(6) s2(3) cur2 cur1)
qed

theorem toggle_floating_twice_witness:
  "wf three_tiled \<and> focus_type (current three_tiled) = TILE \<and>
   tiled_windows (current three_tiled) \<noteq> [] \<and>
   (\<exists>s1 s2. toggle_floating three_tiled = Inr s1 \<and> 2 \<in> floating s1 \<and>
         toggle_floating s1 = Inr s2 \<and> 2 \<notin> floating s2 \<and>
         tiled_windows (current s2) = [2, 1, 3] \<and> tiled_focus (current s2) = Link 2)"
proof -
  have h: "focus_type (current three_tiled) = TILE" "tiled_windows (current three_tiled) \<noteq> []"
    by (simp_all add: example_defs current_def workspace_at_def)
  have c: "tiled_focus (current three_tiled) = Link 2" "tiled_windows (current three_tiled) = [1, 2, 3]"
    by (simp_all add: example_defs current_def workspace_at_def)
  show ?thesis
    using wf_three_tiled h toggle_floating_twice [OF wf_three_tiled h]
    by (auto simp: c)
qed

subsection \<open>C6: the first floated window is the focused one\<close>

text \<open>
  Claim C6 holds for \<^verbatim>\<open>focus_next\<close> and \<^verbatim>\<open>toggle_floating\<close> and is what
  \<^verbatim>\<open>update_focus\<close> and \<^verbatim>\<open>set_focus_type\<close> rely on, but \<^verbatim>\<open>focus_previous\<close> breaks it:
  it moves the first floated window to the end of the list and hands that same window
  to \<^verbatim>\<open>focus\<close>. With the floated windows 1 and 2, 1 in front, the list becomes 2, 1 and
  the window focused is 1: the first element is 2, and the focus has not moved at all.
\<close>

theorem focus_previous_focuses_moved_window:
  "focus_type (current two_floating) = FLOAT \<and>
   floated_windows (current two_floating) = [1, 2] \<and>
   \<not> isl (focus_previous two_floating) \<and>
   floated_windows (current (projr (focus_previous two_floating))) = [2, 1] \<and>
   trace (projr (focus_previous two_floating)) = [Focus (Some (Window 1))] \<and>
   last_focus (trace (projr (focus_previous two_floating))) \<noteq>
     Some (Some (Window (hd (floated_windows (current (projr (focus_previous two_floating)))))))"
  by (simp add: focus_previous_def example_defs handler_defs)

subsection \<open>C7: move\_next followed by move\_previous\<close>

text \<open>
  Claim C7. For a workspace in tiled mode with at least two tiled windows and the focus
  on \<open>w\<close>: \<^verbatim>\<open>move_next\<close> exchanges \<open>w\<close> with its cyclic successor in the tiled list and
  leaves the cursor on \<open>w\<close>; \<^verbatim>\<open>move_previous\<close> after it exchanges the same two windows
  back, so that the workspaces, with the order of the tiled list and the cursor, are as
  before. On the tiled windows 1, 2, 3 with the focus on 2, \<^verbatim>\<open>move_next\<close> alone yields
  1, 3, 2 with the cursor still on 2 (the instance evaluated after the theorem).
\<close>

theorem move_next_then_move_previous:
  assumes wf: "wf s" and ft: "focus_type (current s) = TILE"
    and two: "2 \<le> length (tiled_windows (current s))"
  shows "\<exists>w s1 s2. tiled_focus (current s) = Link w \<and> w \<in> set (tiled_windows (current s)) \<and>
           move_next s = Inr s1 \<and>
           tiled_windows (current s1) =
             map (swap_nodes w (successor w (tiled_windows (current s)))) (tiled_windows (current s)) \<and>
           tiled_focus (current s1) = Link w \<and>
           move_previous s1 = Inr s2 \<and>
           workspaces s2 = workspaces s \<and> workspace s2 = workspace s \<and>
           floating s2 = floating s \<and>
           tiled_windows (current s2) = tiled_windows (current s) \<and>
           tiled_focus (current s2) = Link w"
proof -
  define a where "a = workspace s"
  define xs where "xs = tiled_windows (current s)"
  have a: "a < length (workspaces s)" unfolding a_def using wf by (rule wf_active)
  have d: "distinct (all_windows s)" using wf by (rule wf_distinct)
  have cur: "current s = workspaces s ! a" by (simp add: current_def workspace_at_def a_def)
  have dxs: "distinct xs" using ws_distinct [OF d a] by (simp add: xs_def cur)
  have nt: "\<not> list_is_trivial (tiled_windows (current s))"
    using two by (simp add: list_is_trivial_def)
  from move_next_tile [OF wf ft nt]
  obtain w where w: "tiled_focus (current s) = Link w" "w \<in> set xs"
    and mn: "move_next s =
             Inr (emit [Layout_arrange (layout (current s)) (map (swap_nodes w (successor w xs)) xs)
                          (state (current s))]
                   (update_at a (\<lambda>ws. ws\<lparr>tiled_windows :=
                          map (swap_nodes w (successor w xs)) (tiled_windows ws)\<rparr>) s))"
    and wfu: "wf (update_at a (\<lambda>ws. ws\<lparr>tiled_windows :=
                          map (swap_nodes w (successor w xs)) (tiled_windows ws)\<rparr>) s)"
    unfolding xs_def a_def by blast
  define v where "v = successor w xs"
  define s1 where "s1 = emit [Layout_arrange (layout (current s)) (map (swap_nodes w v) xs) (state (current s))]
                   (update_at a (\<lambda>ws. ws\<lparr>tiled_windows := map (swap_nodes w v) (tiled_windows ws)\<rparr>) s)"
  have mn1: "move_next s = Inr s1" by (simp add: mn s1_def v_def)
  have wf1: "wf s1" using wfu by (simp add: s1_def v_def)
  have s1: "workspaces s1 = (workspaces s)[a := (workspaces s ! a)\<lparr>tiled_windows := map (swap_nodes w v) xs\<rparr>]"
    "workspace s1 = a" "floating s1 = floating s"
    by (simp_all add: s1_def xs_def cur a_def)
  have cur1: "current s1 = (workspaces s ! a)\<lparr>tiled_windows := map (swap_nodes w v) xs\<rparr>"
    using a by (simp add: current_def workspace_at_def s1)
  have ft1: "focus_type (current s1) = TILE" using ft by (simp add: cur1 cur)
  have nt1: "\<not> list_is_trivial (tiled_windows (current s1))"
    using two by (simp add: list_is_trivial_def cur1 xs_def)
  have k1: "tiled_focus (current s1) = Link w" using w(1) by (simp add: cur1 cur)
  have pred: "predecessor w (tiled_windows (current s1)) = v"
    using predecessor_after_swap [OF dxs w(2)] two by (simp add: cur1 v_def xs_def)
  from move_previous_tile [OF wf1 ft1 nt1]
  obtain w' where w': "tiled_focus (current s1) = Link w'"
    and mp: "move_previous s1 =
             Inr (emit [Layout_arrange (layout (current s1))
                          (map (swap_nodes w' (predecessor w' (tiled_windows (current s1)))) (tiled_windows (current s1)))
                          (state (current s1))]
                   (update_at (workspace s1)
                      (\<lambda>ws. ws\<lparr>tiled_windows :=
                          map (swap_nodes w' (predecessor w' (tiled_windows (current s1)))) (tiled_windows ws)\<rparr>) s1))"
    by blast
  have "w' = w" using w' k1 by simp
  define s2 where "s2 = emit [Layout_arrange (layout (current s1)) (map (swap_nodes w v) (tiled_windows (current s1)))
                          (state (current s1))]
                   (update_at a (\<lambda>ws. ws\<lparr>tiled_windows := map (swap_nodes w v) (tiled_windows ws)\<rparr>) s1)"
  have mp2: "move_previous s1 = Inr s2"
    unfolding mp \<open>w' = w\<close> pred s2_def s1(2) ..
  have same: "(workspaces s ! a)\<lparr>tiled_windows := xs\<rparr> = workspaces s ! a"
    by (simp add: xs_def cur)
  have twice: "map (swap_nodes w v \<circ> swap_nodes w v) xs = xs"
    by (simp add: comp_def)
  have "workspaces s2 = workspaces s"
    using a by (simp add: s2_def s1 twice same)
  moreover have "workspace s2 = workspace s" "floating s2 = floating s"
    by (simp_all add: s2_def s1 a_def)
  ultimately have s2: "workspaces s2 = workspaces s" "workspace s2 = workspace s"
    "floating s2 = floating s"
    by simp_all
  have cur2: "current s2 = current s"
    by (simp add: current_def workspace_at_def s2)
  have c1: "tiled_windows (current s1) = map (swap_nodes w (successor w (tiled_windows (current s)))) (tiled_windows (current s))"
    by (simp add: cur1 v_def xs_def)
  have c2: "w \<in> set (tiled_windows (current s))" using w(2) by (simp add: xs_def)
  show ?thesis
    using w(1) c2 mn1 c1 k1 mp2 s2
    by (intro exI [of _ w] exI [of _ s1] exI [of _ s2]) (simp add: cur2)
qed

theorem move_next_then_move_previous_witness:
  "wf three_tiled \<and> focus_type (current three_tiled) = TILE \<and>
   2 \<le> length (tiled_windows (current three_tiled)) \<and>
   tiled_windows (current three_tiled) = [1, 2, 3] \<and> tiled_focus (current three_tiled) = Link 2 \<and>
   (\<exists>s1 s2. move_next three_tiled = Inr s1 \<and>
         tiled_windows (current s1) = [1, 3, 2] \<and> tiled_focus (current s1) = Link 2 \<and>
         move_previous s1 = Inr s2 \<and>
         tiled_windows (current s2) = [1, 2, 3] \<and> tiled_focus (current s2) = Link 2)"
proof -
  have h: "focus_type (current three_tiled) = TILE" "2 \<le> length (tiled_windows (current three_tiled))"
    by (simp_all add: example_defs current_def workspace_at_def)
  have c: "tiled_focus (current three_tiled) = Link 2" "tiled_windows (current three_tiled) = [1, 2, 3]"
    by (simp_all add: example_defs current_def workspace_at_def)
  have e: "successor 2 [Suc 0, 2, 3] = 3"
    by (simp add: successor_def)
  show ?thesis
    using wf_three_tiled h move_next_then_move_previous [OF wf_three_tiled h]
    by (auto simp: c e swap_nodes_def)
qed

subsection \<open>C8: cycling through all workspaces\<close>




subsection \<open>C9: switching to the active workspace\<close>

text \<open>
  Claim C9. \<^verbatim>\<open>set_workspace\<close> called with the index of the workspace that is already
  active returns the state it was given: nothing is shown, hidden or focused, no field
  changes and no hook runs (the trace is a field of the state).
\<close>

theorem set_workspace_active_is_noop:
  assumes "unat index = workspace s" and "workspace s < length (workspaces s)"
  shows "set_workspace index s = Inr s"
  using assms by (simp add: set_workspace_def)

theorem set_workspace_active_is_noop_witness:
  "unat (0 :: 8 word) = workspace three_tiled \<and>
   workspace three_tiled < length (workspaces three_tiled) \<and>
   set_workspace 0 three_tiled = Inr three_tiled"
  using set_workspace_active_is_noop [of 0 three_tiled]
  by (simp add: three_tiled_def mk_velox_def)

subsection \<open>C10: moving the focused window to the active workspace itself\<close>

text \<open>
  Claim C10. \<^verbatim>\<open>move_focus_to_workspace\<close> does not compare the target with the active
  workspace. In tiled mode, with a non-empty tiled list and the index of the active
  workspace, it moves the focused window \<open>w\<close> to the front of that same tiled list, sets
  the tiled focus cursor to the former successor of \<open>w\<close>, focuses that successor and
  hides \<open>w\<close>, which is still a tiled window of the active workspace.
\<close>

theorem move_focus_to_own_workspace:
  assumes "wf s" and "focus_type (current s) = TILE" and "tiled_windows (current s) \<noteq> []"
    and "unat index = workspace s"
  shows "\<exists>w s'. tiled_focus (current s) = Link w \<and>
           move_focus_to_workspace index s = Inr s' \<and>
           workspace s' = workspace s \<and>
           tiled_windows (current s') = w # removeAll w (tiled_windows (current s)) \<and>
           tiled_focus (current s') = Link (successor w (tiled_windows (current s))) \<and>
           w \<in> set (tiled_windows (current s')) \<and>
           trace s' = trace s @
             [Focus (Some (Window (successor w (tiled_windows (current s))))),
              Hide_window (Window w),
              Layout_arrange (layout (current s)) (w # removeAll w (tiled_windows (current s)))
                (state (current s))]"
proof -
  from move_focus_tiled_same [OF assms]
  obtain w s' where s': "tiled_focus (current s) = Link w"
      "move_focus_to_workspace index s = Inr s'" "workspace s' = workspace s"
      "workspaces s' = (workspaces s)[workspace s :=
             (current s)\<lparr>tiled_windows := w # removeAll w (tiled_windows (current s)),
                          tiled_focus := Link (successor w (tiled_windows (current s)))\<rparr>]"
      "trace s' = trace s @
             [Focus (Some (Window (successor w (tiled_windows (current s))))),
              Hide_window (Window w),
              Layout_arrange (layout (current s)) (w # removeAll w (tiled_windows (current s)))
                (state (current s))]"
    by blast
  have "workspace s < length (workspaces s)" using assms(1) by (rule wf_active)
  then have "current s' = (current s)\<lparr>tiled_windows := w # removeAll w (tiled_windows (current s)),
                          tiled_focus := Link (successor w (tiled_windows (current s)))\<rparr>"
    by (simp add: current_def workspace_at_def s'(3,4))
  then show ?thesis
    using s'(1,2,3,5) by (intro exI [of _ w] exI [of _ s']) simp
qed

theorem move_focus_to_own_workspace_witness:
  "wf three_tiled \<and> focus_type (current three_tiled) = TILE \<and>
   tiled_windows (current three_tiled) \<noteq> [] \<and> unat (0 :: 8 word) = workspace three_tiled \<and>
   (\<exists>s'. move_focus_to_workspace 0 three_tiled = Inr s' \<and>
         tiled_windows (current s') = [2, 1, 3] \<and> tiled_focus (current s') = Link 3 \<and>
         trace s' = [Focus (Some (Window 3)), Hide_window (Window 2),
                     Layout_arrange (Link 100) [2, 1, 3] [1, 2, 3, 4]])"
proof -
  have h: "focus_type (current three_tiled) = TILE" "tiled_windows (current three_tiled) \<noteq> []"
    "unat (0 :: 8 word) = workspace three_tiled"
    by (simp_all add: example_defs current_def workspace_at_def)
  have c: "tiled_focus (current three_tiled) = Link 2" "tiled_windows (current three_tiled) = [1, 2, 3]"
    "successor 2 [Suc 0, 2, 3] = 3" "layout (current three_tiled) = Link 100"
    "state (current three_tiled) = [1, 2, 3, 4]" "trace three_tiled = []"
    by (simp_all add: example_defs current_def workspace_at_def successor_def)
  show ?thesis
    using wf_three_tiled h move_focus_to_own_workspace [OF wf_three_tiled h]
    by (auto simp: c)
qed

end
